theory Spec2Isabelle
  imports Complex_Main "HOL-Library.Multiset"
begin

section \<open>Confident learning: the confident joint and the selection of label errors\<close>

text \<open>
  The program is the notebook \<^verbatim>\<open>examples/simplifying_confident_learning_tutorial.ipynb\<close>.
  Its inputs are the noisy labels \<^verbatim>\<open>s\<close> (an integer array) and the predicted
  probabilities \<^verbatim>\<open>psx\<close> (a two-dimensional array, one row per example).
  Labels are modelled as \<^typ>\<open>int list\<close>, the probability matrix as a list of rows
  over \<^typ>\<open>real\<close>: the properties below depend on the order and on the arithmetic
  of the probabilities, not on their rounding. The one value of floating point that the
  program does produce and that the reals lack is the not-a-number of the mean of an empty
  selection; a threshold is therefore a \<^typ>\<open>real option\<close>, \<^term>\<open>None\<close> standing for
  not-a-number, against which every comparison is false.
  Every exception of Python and numpy is a value \<^term>\<open>Inl e\<close>.
\<close>

subsection \<open>Errors, indexing and array primitives\<close>

datatype error = IndexError | ValueError

text \<open>A list comprehension whose body may raise: the first failure ends it.\<close>

fun collect :: "(error + 'a) list \<Rightarrow> error + 'a list" where
  "collect [] = Inr []"
| "collect (x # xs) =
     (case x of Inl e \<Rightarrow> Inl e
      | Inr v \<Rightarrow> (case collect xs of Inl e \<Rightarrow> Inl e | Inr vs \<Rightarrow> Inr (v # vs)))"

text \<open>A \<^verbatim>\<open>for\<close> loop that updates an accumulator and stops at the first exception.\<close>

fun for_loop :: "('b \<Rightarrow> 'a \<Rightarrow> error + 'b) \<Rightarrow> 'a list \<Rightarrow> 'b \<Rightarrow> error + 'b" where
  "for_loop f [] a = Inr a"
| "for_loop f (x # xs) a =
     (case f a x of Inl e \<Rightarrow> Inl e | Inr a' \<Rightarrow> for_loop f xs a')"

text \<open>Indexing an axis of length \<open>n\<close> with a Python integer: negative indices count from the end.\<close>

definition py_index :: "nat \<Rightarrow> int \<Rightarrow> error + nat" where
  "py_index n i =
     (if 0 \<le> i \<and> i < int n then Inr (nat i)
      else if - int n \<le> i \<and> i < 0 then Inr (nat (int n + i))
      else Inl IndexError)"

text \<open>\<^verbatim>\<open>psx[:, k]\<close>: the column \<open>k\<close> of the matrix.\<close>

definition column :: "real list list \<Rightarrow> nat \<Rightarrow> error + real list" where
  "column psx k =
     (if list_all (\<lambda>row. k < length row) psx then Inr (map (\<lambda>row. row ! k) psx)
      else Inl IndexError)"

text \<open>\<^verbatim>\<open>s == k\<close>: the boolean mask of the examples whose label is \<open>k\<close>.\<close>

definition label_is :: "int list \<Rightarrow> nat \<Rightarrow> bool list" where
  "label_is s k = map (\<lambda>l. l = int k) s"

text \<open>\<^verbatim>\<open>xs[mask]\<close>: boolean indexing; numpy raises when the lengths differ.\<close>

definition mask_select :: "'a list \<Rightarrow> bool list \<Rightarrow> error + 'a list" where
  "mask_select xs m =
     (if length m = length xs then Inr (map fst (filter snd (zip xs m)))
      else Inl IndexError)"

text \<open>\<^verbatim>\<open>np.mean\<close>: not-a-number on an empty array.\<close>

definition mean :: "real list \<Rightarrow> real option" where
  "mean xs = (if xs = [] then None else Some (sum_list xs / real (length xs)))"

text \<open>\<^verbatim>\<open>np.argmax\<close>: the first index of the greatest entry; it raises on an empty array.\<close>

definition argmax_idx :: "'a::linorder list \<Rightarrow> nat" where
  "argmax_idx xs = length (takeWhile (\<lambda>x. x \<noteq> Max (set xs)) xs)"

definition argmax :: "'a::linorder list \<Rightarrow> error + nat" where
  "argmax xs = (if xs = [] then Inl ValueError else Inr (argmax_idx xs))"

subsection \<open>Step 1: thresholds and the confident joint\<close>

text \<open>\<^verbatim>\<open>K = len(np.unique(s))\<close>\<close>

definition num_classes :: "int list \<Rightarrow> nat" where
  "num_classes s = length (remdups s)"

text \<open>\<^verbatim>\<open>np.mean(psx[:,k][s == k])\<close>\<close>

definition threshold :: "int list \<Rightarrow> real list list \<Rightarrow> nat \<Rightarrow> error + real option" where
  "threshold s psx k =
     (case column psx k of Inl e \<Rightarrow> Inl e
      | Inr c \<Rightarrow> (case mask_select c (label_is s k) of Inl e \<Rightarrow> Inl e
                  | Inr v \<Rightarrow> Inr (mean v)))"

definition thresholds :: "int list \<Rightarrow> real list list \<Rightarrow> error + real option list" where
  "thresholds s psx = collect (map (threshold s psx) [0..<num_classes s])"

text \<open>One comparison of \<^verbatim>\<open>row >= thresholds - 1e-6\<close>.\<close>

definition geq_thr :: "real \<Rightarrow> real option \<Rightarrow> bool" where
  "geq_thr p t = (case t of None \<Rightarrow> False | Some v \<Rightarrow> v - 1 / 1000000 \<le> p)"

text \<open>
  \<^verbatim>\<open>confident_bins = row >= thresholds - 1e-6\<close>, with numpy's broadcasting of two
  one-dimensional arrays: equal lengths compare elementwise, a length of one is
  stretched, anything else raises.
\<close>

definition confident_bins :: "real list \<Rightarrow> real option list \<Rightarrow> error + bool list" where
  "confident_bins row thr =
     (if length row = length thr then Inr (map (\<lambda>(p, t). geq_thr p t) (zip row thr))
      else if length thr = 1 then Inr (map (\<lambda>p. geq_thr p (thr ! 0)) row)
      else if length row = 1 then Inr (map (geq_thr (row ! 0)) thr)
      else Inl ValueError)"

text \<open>\<^verbatim>\<open>joint[r][c] += 1\<close> on in-range indices.\<close>

definition bump :: "nat list list \<Rightarrow> nat \<Rightarrow> nat \<Rightarrow> nat list list" where
  "bump joint r c = joint[r := (joint ! r)[c := Suc (joint ! r ! c)]]"

text \<open>\<^verbatim>\<open>confident_joint[s_label][c] += 1\<close>\<close>

definition increment :: "nat list list \<Rightarrow> int \<Rightarrow> nat \<Rightarrow> error + nat list list" where
  "increment joint s_label c =
     (case py_index (length joint) s_label of Inl e \<Rightarrow> Inl e
      | Inr r \<Rightarrow> if c < length (joint ! r) then Inr (bump joint r c) else Inl IndexError)"

text \<open>The body of the loop \<^verbatim>\<open>for i, row in enumerate(psx)\<close>.\<close>

definition count_step ::
  "int list \<Rightarrow> real option list \<Rightarrow> nat list list \<Rightarrow> nat \<times> real list \<Rightarrow> error + nat list list" where
  "count_step s thr joint ir =
     (case ir of (i, row) \<Rightarrow>
        if i < length s then
          (case confident_bins row thr of Inl e \<Rightarrow> Inl e
           | Inr bins \<Rightarrow>
               let num_confident_bins = length (filter id bins) in
               if num_confident_bins = 1 then
                 (case argmax bins of Inl e \<Rightarrow> Inl e | Inr c \<Rightarrow> increment joint (s ! i) c)
               else if num_confident_bins > 1 then
                 (case argmax row of Inl e \<Rightarrow> Inl e | Inr c \<Rightarrow> increment joint (s ! i) c)
               else Inr joint)
        else Inl IndexError)"

text \<open>The confident joint before calibration.\<close>

definition confident_joint :: "int list \<Rightarrow> real list list \<Rightarrow> error + nat list list" where
  "confident_joint s psx =
     (case thresholds s psx of Inl e \<Rightarrow> Inl e
      | Inr thr \<Rightarrow>
          for_loop (count_step s thr) (enumerate 0 psx)
            (replicate (num_classes s) (replicate (num_classes s) 0)))"

subsection \<open>Step 2: selection and ranking of the label errors\<close>

text \<open>
  \<^verbatim>\<open>np.bincount(s)\<close>: it raises on a negative entry; otherwise entry \<open>v\<close> counts the
  labels equal to \<open>v\<close>, for \<open>v\<close> up to the greatest label.
\<close>

definition bincount :: "int list \<Rightarrow> error + nat list" where
  "bincount s =
     (if list_ex (\<lambda>l. l < 0) s then Inl ValueError
      else Inr (map (\<lambda>v. count_list s (int v))
                  [0..<(if s = [] then 0 else Suc (nat (Max (set s))))]))"

text \<open>\<^verbatim>\<open>xs[k]\<close> for a loop index \<open>k\<close>, which is never negative.\<close>

definition item :: "'a list \<Rightarrow> nat \<Rightarrow> error + 'a" where
  "item xs k = (if k < length xs then Inr (xs ! k) else Inl IndexError)"

text \<open>
  \<^verbatim>\<open>-np.partition(-xs, kth)[kth]\<close>: the entry at position \<open>kth\<close> of the negated
  values in ascending order, negated again. On an empty array \<^verbatim>\<open>np.partition\<close> returns
  the empty array and the subscript raises the index error; on a non-empty array numpy
  raises a value error when \<open>kth\<close> is out of bounds.
\<close>

definition neg_partition_at :: "real list \<Rightarrow> nat \<Rightarrow> error + real" where
  "neg_partition_at xs kth =
     (if xs = [] then Inl IndexError
      else if kth < length xs then Inr (- (sort (map uminus xs) ! kth))
      else Inl ValueError)"

text \<open>
  The body of \<^verbatim>\<open>if num2prune > 0\<close> without the final disjunction: the mask
  \<^verbatim>\<open>s_filter & (margin >= threshold)\<close> of one pair of a true class (whose column is
  \<open>psx_k\<close>) and a noisy label \<open>j\<close>.
\<close>

definition pair_mask ::
  "int list \<Rightarrow> real list list \<Rightarrow> real list \<Rightarrow> nat \<Rightarrow> nat \<Rightarrow> error + bool list" where
  "pair_mask s psx psx_k j num2prune =
     (case column psx j of Inl e \<Rightarrow> Inl e
      | Inr psx_j \<Rightarrow>
          let margin = map (\<lambda>(a, b). a - b) (zip psx_k psx_j);
              s_filter = label_is s j
          in (case mask_select margin s_filter of Inl e \<Rightarrow> Inl e
              | Inr selected \<Rightarrow>
                  (case neg_partition_at selected (num2prune - 1) of Inl e \<Rightarrow> Inl e
                   | Inr cutoff \<Rightarrow>
                       Inr (map (\<lambda>(f, m). f \<and> cutoff \<le> m) (zip s_filter margin)))))"

text \<open>The body of the loop \<^verbatim>\<open>for j in range(K)\<close>, with the mask as accumulator.\<close>

definition prune_step ::
  "int list \<Rightarrow> real list list \<Rightarrow> nat list list \<Rightarrow> nat \<Rightarrow> real list \<Rightarrow>
   bool list \<Rightarrow> nat \<Rightarrow> error + bool list" where
  "prune_step s psx prune_count_matrix k psx_k noise_mask j =
     (if k \<noteq> j then
        (case item prune_count_matrix k of Inl e \<Rightarrow> Inl e
         | Inr prune_row \<Rightarrow>
             (case item prune_row j of Inl e \<Rightarrow> Inl e
              | Inr num2prune \<Rightarrow>
                  if num2prune > 0 then
                    (case pair_mask s psx psx_k j num2prune of Inl e \<Rightarrow> Inl e
                     | Inr sel \<Rightarrow> Inr (map (\<lambda>(a, b). a \<or> b) (zip noise_mask sel)))
                  else Inr noise_mask))
      else Inr noise_mask)"

text \<open>The body of the loop \<^verbatim>\<open>for k in range(K)\<close>: the noise mask of the true class \<open>k\<close>.\<close>

definition class_mask ::
  "int list \<Rightarrow> real list list \<Rightarrow> nat list list \<Rightarrow> nat \<Rightarrow> nat list \<Rightarrow> nat \<Rightarrow>
   error + bool list" where
  "class_mask s psx prune_count_matrix min_per_class s_counts k =
     (case column psx k of Inl e \<Rightarrow> Inl e
      | Inr psx_k \<Rightarrow>
          (case item s_counts k of Inl e \<Rightarrow> Inl e
           | Inr c \<Rightarrow>
               if c > min_per_class then
                 for_loop (prune_step s psx prune_count_matrix k psx_k)
                   [0..<num_classes s] (replicate (length psx) False)
               else Inr (replicate (length s) False)))"

definition noise_masks_per_class ::
  "int list \<Rightarrow> real list list \<Rightarrow> nat list list \<Rightarrow> nat \<Rightarrow> error + bool list list" where
  "noise_masks_per_class s psx prune_count_matrix min_per_class =
     (case bincount s of Inl e \<Rightarrow> Inl e
      | Inr s_counts \<Rightarrow>
          collect (map (class_mask s psx prune_count_matrix min_per_class s_counts)
                     [0..<num_classes s]))"

text \<open>
  \<^verbatim>\<open>np.stack(masks).any(axis=0)\<close>: it raises on an empty list and on masks of
  different lengths.
\<close>

definition stack_any :: "bool list list \<Rightarrow> error + bool list" where
  "stack_any masks =
     (case masks of [] \<Rightarrow> Inl ValueError
      | m # ms \<Rightarrow>
          if list_all (\<lambda>m'. length m' = length m) ms
          then Inr (map (\<lambda>i. list_ex (\<lambda>m'. m' ! i) masks) [0..<length m])
          else Inl ValueError)"

text \<open>
  The body of the loop that removes a flag when the given label is the model's prediction.
  Python's \<^verbatim>\<open>and\<close> reads \<^verbatim>\<open>s[i]\<close> only when the flag is set.
\<close>

definition unflag_step :: "int list \<Rightarrow> bool list \<Rightarrow> nat \<times> nat \<Rightarrow> error + bool list" where
  "unflag_step s label_errors_bool ip =
     (case ip of (i, pred_label) \<Rightarrow>
        (case item label_errors_bool i of Inl e \<Rightarrow> Inl e
         | Inr flagged \<Rightarrow>
             if flagged then
               (case item s i of Inl e \<Rightarrow> Inl e
                | Inr s_i \<Rightarrow>
                    if int pred_label = s_i then Inr (label_errors_bool[i := False])
                    else Inr label_errors_bool)
             else Inr label_errors_bool))"

definition label_errors_bool ::
  "int list \<Rightarrow> real list list \<Rightarrow> nat list list \<Rightarrow> nat \<Rightarrow> error + bool list" where
  "label_errors_bool s psx prune_count_matrix min_per_class =
     (case noise_masks_per_class s psx prune_count_matrix min_per_class of Inl e \<Rightarrow> Inl e
      | Inr masks \<Rightarrow>
          (case stack_any masks of Inl e \<Rightarrow> Inl e
           | Inr flags \<Rightarrow>
               (case collect (map argmax psx) of Inl e \<Rightarrow> Inl e
                | Inr preds \<Rightarrow> for_loop (unflag_step s) (enumerate 0 preds) flags)))"

text \<open>\<^verbatim>\<open>psx[i][s[i]]\<close>, the self confidence of a flagged example.\<close>

definition self_confidence :: "int list \<Rightarrow> real list list \<Rightarrow> nat \<Rightarrow> error + real" where
  "self_confidence s psx i =
     (case item psx i of Inl e \<Rightarrow> Inl e
      | Inr row \<Rightarrow>
          (case item s i of Inl e \<Rightarrow> Inl e
           | Inr s_i \<Rightarrow>
               (case py_index (length row) s_i of Inl e \<Rightarrow> Inl e
                | Inr c \<Rightarrow> Inr (row ! c))))"

text \<open>One entry of \<^verbatim>\<open>.max(axis=1)\<close>; numpy raises on a row without entries.\<close>

definition row_max :: "real list \<Rightarrow> error + real" where
  "row_max row = (if row = [] then Inl ValueError else Inr (Max (set row)))"

text \<open>
  The ranking: the flagged indices, their margins, and the indices reordered by
  \<^verbatim>\<open>np.argsort(margin)\<close>. The sort of the model is stable; numpy's default sort
  promises no order among equal margins, and nothing below depends on that order.
\<close>

definition rank_errors :: "int list \<Rightarrow> real list list \<Rightarrow> bool list \<Rightarrow> error + nat list" where
  "rank_errors s psx flags =
     (case mask_select [0..<length s] flags of Inl e \<Rightarrow> Inl e
      | Inr label_errors_idx \<Rightarrow>
          (case collect (map (self_confidence s psx) label_errors_idx) of Inl e \<Rightarrow> Inl e
           | Inr self_conf \<Rightarrow>
               (case mask_select psx flags of Inl e \<Rightarrow> Inl e
                | Inr flagged_rows \<Rightarrow>
                    (case collect (map row_max flagged_rows) of Inl e \<Rightarrow> Inl e
                     | Inr maxes \<Rightarrow>
                         let margin = map (\<lambda>(a, b). a - b) (zip self_conf maxes)
                         in Inr (map fst (sort_key snd (zip label_errors_idx margin)))))))"

text \<open>Step 2 from the pruning counts on: the ordered indices of the label errors.\<close>

definition label_errors_idx ::
  "int list \<Rightarrow> real list list \<Rightarrow> nat list list \<Rightarrow> nat \<Rightarrow> error + nat list" where
  "label_errors_idx s psx prune_count_matrix min_per_class =
     (case label_errors_bool s psx prune_count_matrix min_per_class of Inl e \<Rightarrow> Inl e
      | Inr flags \<Rightarrow> rank_errors s psx flags)"

subsection \<open>Calibration, the floor on the pruning counts, and the whole run\<close>

text \<open>
  Modelled from the spec: \<^verbatim>\<open>cleanlab.latent_estimation.calibrate_confident_joint\<close> is
  called by the notebook and is not among the sources. The specification scales each row by
  the number of examples of the row's label over the row sum when the row sum is not zero
  (a row of sum zero stays zero).
\<close>

definition scale_row :: "nat \<Rightarrow> nat list \<Rightarrow> real list" where
  "scale_row cnt row =
     (if sum_list row = 0 then map (\<lambda>c. 0) row
      else map (\<lambda>c. real c * (real cnt / real (sum_list row))) row)"

definition scaled_joint :: "nat list list \<Rightarrow> int list \<Rightarrow> real list list" where
  "scaled_joint joint s =
     map (\<lambda>(r, row). scale_row (count_list s (int r)) row) (enumerate 0 joint)"

text \<open>
  Modelled from the spec: the rounding of the calibration, which is part of the same
  missing function. The specification rounds to integers by largest remainders and asks of
  the result that every row sums to the number of examples of the row's label, hence the
  whole matrix to \<open>n\<close>. So every row is rounded on its own: each cell is rounded down, and
  the residual of the row, its sum rounded to the nearest integer minus the sum of the
  rounded cells, is given out one unit per cell to the cells of the row with the largest
  fractional parts first, ties in the order of the column index; the rows are taken in
  order.
\<close>

definition largest_remainder_row :: "real list \<Rightarrow> nat list" where
  "largest_remainder_row row =
     (let floors = map (\<lambda>x. nat \<lfloor>x\<rfloor>) row;
          residual = nat \<lfloor>sum_list row + 1 / 2\<rfloor> - sum_list floors;
          order = sort_key (\<lambda>c. - frac (row ! c)) [0..<length row];
          chosen = take residual order
      in map (\<lambda>c. floors ! c + (if c \<in> set chosen then 1 else 0)) [0..<length row])"

definition calibrate_confident_joint :: "nat list list \<Rightarrow> int list \<Rightarrow> nat list list" where
  "calibrate_confident_joint joint s = map largest_remainder_row (scaled_joint joint s)"








section \<open>Properties\<close>

subsection \<open>Auxiliary facts on the array primitives\<close>

lemma argmax_idx_props:
  assumes "xs \<noteq> []"
  shows "argmax_idx xs < length xs" "xs ! argmax_idx xs = Max (set xs)"
    "\<And>k. k < argmax_idx xs \<Longrightarrow> xs ! k < Max (set xs)"
proof -
  have m: "Max (set xs) \<in> set xs" using assms by (simp add: Max_in)
  then have "takeWhile (\<lambda>x. x \<noteq> Max (set xs)) xs \<noteq> xs"
    by (metis (mono_tags, lifting) takeWhile_eq_all_conv)
  then show l: "argmax_idx xs < length xs"
    unfolding argmax_idx_def
    by (metis length_takeWhile_le le_neq_implies_less takeWhile_eq_take take_all_iff order_refl)
  show "xs ! argmax_idx xs = Max (set xs)"
    using l nth_length_takeWhile[of "\<lambda>x. x \<noteq> Max (set xs)" xs] unfolding argmax_idx_def by auto
  fix k assume k: "k < argmax_idx xs"
  then have "xs ! k \<noteq> Max (set xs)"
    unfolding argmax_idx_def
    by (metis (mono_tags, lifting) nth_mem set_takeWhileD takeWhile_nth)
  moreover have "xs ! k \<le> Max (set xs)" using k l by simp
  ultimately show "xs ! k < Max (set xs)" by simp
qed

lemma argmax_idx_least:
  assumes "k < length xs" "xs ! k = Max (set xs)" "\<And>j. j < k \<Longrightarrow> xs ! j \<noteq> Max (set xs)"
  shows "argmax_idx xs = k"
proof -
  have ne: "xs \<noteq> []" using assms(1) by auto
  have "\<not> k < argmax_idx xs" using argmax_idx_props(3)[OF ne, of k] assms(2) by auto
  moreover have "\<not> argmax_idx xs < k" using assms(3) argmax_idx_props(2)[OF ne] by auto
  ultimately show ?thesis by simp
qed

lemma count_true_card: "length (filter id bs) = card {k. k < length bs \<and> bs ! k}"
  by (simp add: length_filter_conv_card)

lemma argmax_idx_single:
  assumes "{k. k < length bs \<and> bs ! k} = {c}"
  shows "argmax_idx bs = c"
proof -
  have c: "c < length bs" "bs ! c" using assms by auto
  then have "True \<in> set bs" by (metis nth_mem)
  then have mx: "Max (set bs) = True"
    by (metis (full_types) List.finite_set Max_ge le_boolD)
  show ?thesis
  proof (rule argmax_idx_least)
    show "c < length bs" by fact
    show "bs ! c = Max (set bs)" using c mx by simp
    fix j assume "j < c"
    then have "j \<notin> {k. k < length bs \<and> bs ! k}" using assms by auto
    then show "bs ! j \<noteq> Max (set bs)" using \<open>j < c\<close> c(1) mx by auto
  qed
qed

lemma confident_bins_eq_length:
  "length row = length thr \<Longrightarrow>
   confident_bins row thr = Inr (map (\<lambda>k. geq_thr (row ! k) (thr ! k)) [0..<length thr])"
  unfolding confident_bins_def
  by (auto intro!: nth_equalityI)

lemma py_index_nonneg: "0 \<le> l \<Longrightarrow> l < int n \<Longrightarrow> py_index n l = Inr (nat l)"
  by (simp add: py_index_def)

subsection \<open>One pass of the counting loop\<close>

lemma count_step_cases:
  assumes "length row = K" and "length thr = K"
    and "length joint = K" and "\<forall>r<K. length (joint ! r) = K"
    and "i < length s" and "0 \<le> s ! i" and "s ! i < int K"
  defines "C \<equiv> {k. k < K \<and> (case thr ! k of None \<Rightarrow> False | Some t \<Rightarrow> t - 1 / 1000000 \<le> row ! k)}"
  shows "(\<forall>k. C = {k} \<longrightarrow> count_step s thr joint (i, row) = Inr (bump joint (nat (s ! i)) k))
    \<and> (1 < card C \<longrightarrow>
         count_step s thr joint (i, row) = Inr (bump joint (nat (s ! i)) (argmax_idx row))
         \<and> argmax_idx row < K \<and> row ! argmax_idx row = Max (set row))
    \<and> (C = {} \<longrightarrow> count_step s thr joint (i, row) = Inr joint)"
proof -
  define bins where "bins = map (\<lambda>k. geq_thr (row ! k) (thr ! k)) [0..<K]"
  have bins: "confident_bins row thr = Inr bins"
    using confident_bins_eq_length[of row thr] assms(1,2) by (simp add: bins_def)
  have Cb: "C = {k. k < length bins \<and> bins ! k}"
    unfolding C_def bins_def by (auto simp: geq_thr_def split: option.splits)
  have num: "length (filter id bins) = card C"
    by (simp add: Cb count_true_card)
  have fin: "finite C" unfolding Cb by simp
  have r: "py_index (length joint) (s ! i) = Inr (nat (s ! i))"
    using assms(3,6,7) by (simp add: py_index_nonneg)
  have rl: "length (joint ! nat (s ! i)) = K"
    using assms(4,6,7) by (simp add: nat_less_iff)
  have inc: "\<And>c. c < K \<Longrightarrow> increment joint (s ! i) c = Inr (bump joint (nat (s ! i)) c)"
    by (simp add: increment_def r rl)
  have one: "count_step s thr joint (i, row) = Inr (bump joint (nat (s ! i)) k)" if "C = {k}" for k
  proof -
    have kC: "k \<in> C" using that by simp
    have "k < K" using kC unfolding C_def by simp
    moreover have "argmax_idx bins = k" using that argmax_idx_single[of bins k] Cb by simp
    moreover have "k < length bins" using kC unfolding Cb by simp
    then have "bins \<noteq> []" by auto
    moreover have "card C = 1" using that by simp
    ultimately show ?thesis
      using assms(5) by (simp add: count_step_def bins num argmax_def inc)
  qed
  have many: "count_step s thr joint (i, row) = Inr (bump joint (nat (s ! i)) (argmax_idx row))
         \<and> argmax_idx row < K \<and> row ! argmax_idx row = Max (set row)" if "1 < card C"
  proof -
    have "C \<noteq> {}" using that by auto
    then obtain k where "k \<in> C" by blast
    then have "0 < K" unfolding C_def by simp
    then have ne: "row \<noteq> []" using assms(1) by auto
    have lt: "argmax_idx row < K" using argmax_idx_props(1)[OF ne] assms(1) by simp
    show ?thesis
      using that assms(5) lt argmax_idx_props(2)[OF ne] ne
      by (simp add: count_step_def bins num argmax_def inc)
  qed
  have none: "count_step s thr joint (i, row) = Inr joint" if "C = {}"
    using that assms(5) by (simp add: count_step_def bins num)
  show ?thesis using one many none by blast
qed

subsection \<open>Selection by the order statistic\<close>

lemma zip_conv_upt:
  "length ys = length xs \<Longrightarrow> zip xs ys = map (\<lambda>i. (xs ! i, ys ! i)) [0..<length xs]"
  by (rule nth_equalityI) auto

lemma mask_select_upt:
  "length m = length xs \<Longrightarrow>
   mask_select xs m = Inr (map ((!) xs) (filter ((!) m) [0..<length xs]))"
  by (simp add: mask_select_def zip_conv_upt filter_map comp_def)

lemma sort_uminus: "sort (map uminus xs) = map uminus (rev (sort xs))" for xs :: "real list"
proof (rule properties_for_sort)
  show "mset (map uminus (rev (sort xs))) = mset (map uminus xs)" by simp
  have "sorted_wrt (\<lambda>a b. b \<le> a) (rev (sort xs))"
    using sorted_sort[of xs] by (simp add: sorted_wrt_rev)
  then show "sorted (map uminus (rev (sort xs)))"
    by (simp add: sorted_wrt_map)
qed

lemma neg_partition_at_largest:
  "kth < length xs \<Longrightarrow> neg_partition_at xs kth = Inr (rev (sort xs) ! kth)"
  by (auto simp: neg_partition_at_def sort_uminus)

lemma descending_prefix_count:
  fixes d :: "real list"
  assumes "sorted (rev d)" and "k < length d"
  shows "Suc k \<le> length (filter (\<lambda>x. d ! k \<le> x) d)"
proof -
  have "\<forall>x \<in> set (take (Suc k) d). d ! k \<le> x"
  proof
    fix x assume "x \<in> set (take (Suc k) d)"
    then obtain i where i: "i < Suc k" "x = d ! i"
      using assms(2) by (auto simp: in_set_conv_nth)
    have "sorted_wrt (\<lambda>a b. b \<le> a) d" using assms(1) by (simp add: sorted_wrt_rev)
    then show "d ! k \<le> x" using i assms(2)
      by (cases "i = k") (auto simp: sorted_wrt_iff_nth_less)
  qed
  then have "filter (\<lambda>x. d ! k \<le> x) (take (Suc k) d) = take (Suc k) d" by simp
  moreover have "filter (\<lambda>x. d ! k \<le> x) d =
      filter (\<lambda>x. d ! k \<le> x) (take (Suc k) d) @ filter (\<lambda>x. d ! k \<le> x) (drop (Suc k) d)"
    by (metis append_take_drop_id filter_append)
  ultimately show ?thesis using assms(2) by simp
qed

lemma count_at_least_cutoff:
  fixes xs :: "real list"
  assumes "k < length xs"
  shows "Suc k \<le> length (filter (\<lambda>x. rev (sort xs) ! k \<le> x) xs)"
proof -
  let ?d = "rev (sort xs)"
  have "Suc k \<le> length (filter (\<lambda>x. ?d ! k \<le> x) ?d)"
    using descending_prefix_count[of ?d k] assms by simp
  also have "\<dots> = size (filter_mset (\<lambda>x. ?d ! k \<le> x) (mset ?d))"
    by (metis mset_filter size_mset)
  also have "\<dots> = length (filter (\<lambda>x. ?d ! k \<le> x) xs)"
    by (metis mset_filter mset_rev mset_sort size_mset)
  finally show ?thesis .
qed

lemma pair_mask_general:
  assumes "length s = length psx" and "length psx_k = length psx"
    and "list_all (\<lambda>row. j < length row) psx"
    and "0 < num2prune" and "num2prune \<le> count_list s (int j)"
  defines "margin \<equiv> (\<lambda>i. psx_k ! i - psx ! i ! j)"
  defines "cutoff \<equiv>
     rev (sort (map margin (filter (\<lambda>i. s ! i = int j) [0..<length s]))) ! (num2prune - 1)"
  shows "\<exists>mask. pair_mask s psx psx_k j num2prune = Inr mask
     \<and> length mask = length s
     \<and> (\<forall>i<length s. mask ! i \<longleftrightarrow> s ! i = int j \<and> cutoff \<le> margin i)
     \<and> num2prune \<le> length (filter id mask)"
proof -
  let ?n = "length s"
  let ?P = "\<lambda>i. s ! i = int j"
  define mg where "mg = map (\<lambda>(a, b). a - b) (zip psx_k (map (\<lambda>row. row ! j) psx))"
  define sel where "sel = map margin (filter ?P [0..<?n])"
  have col: "column psx j = Inr (map (\<lambda>row. row ! j) psx)"
    using assms(3) by (simp add: column_def)
  have mg_len: "length mg = ?n" using assms(1,2) by (simp add: mg_def)
  have mg_nth: "mg ! i = margin i" if "i < ?n" for i
    using that assms(1,2) by (simp add: mg_def margin_def)
  have mg_eq: "mg = map margin [0..<?n]"
    using mg_len mg_nth by (auto intro: nth_equalityI)
  have filt: "filter ((!) (label_is s j)) [0..<?n] = filter ?P [0..<?n]"
    by (rule filter_cong) (auto simp: label_is_def)
  have "mask_select mg (label_is s j) = Inr (map ((!) mg) (filter ((!) (label_is s j)) [0..<length mg]))"
    by (rule mask_select_upt) (simp add: mg_len label_is_def)
  also have "map ((!) mg) (filter ((!) (label_is s j)) [0..<length mg]) = sel"
    unfolding sel_def mg_len filt by (rule map_cong) (auto simp: mg_nth)
  finally have ms: "mask_select mg (label_is s j) = Inr sel" .
  have "length (filter ?P [0..<?n]) = length (filter (\<lambda>l. l = int j) s)"
    using length_filter_map[of "\<lambda>l. l = int j" "(!) s" "[0..<?n]"]
    by (simp add: map_nth comp_def)
  also have "\<dots> = count_list s (int j)"
  proof -
    have "filter (\<lambda>l. l = int j) s = filter ((=) (int j)) s"
      by (rule filter_cong) auto
    then show ?thesis by (simp add: count_list_eq_length_filter)
  qed
  finally have sel_len: "length sel = count_list s (int j)" by (simp add: sel_def)
  have kth: "num2prune - 1 < length sel" using assms(4,5) sel_len by simp
  have cut: "neg_partition_at sel (num2prune - 1) = Inr cutoff"
    using neg_partition_at_largest[OF kth] by (simp add: cutoff_def sel_def)
  define mask where "mask = map (\<lambda>(f, m). f \<and> cutoff \<le> m) (zip (label_is s j) mg)"
  have pm: "pair_mask s psx psx_k j num2prune = Inr mask"
    unfolding pair_mask_def col sum.case Let_def mg_def[symmetric] ms cut mask_def
    by (rule refl)
  have ml: "length mask = ?n" by (simp add: mask_def mg_len label_is_def)
  have mn: "mask ! i \<longleftrightarrow> s ! i = int j \<and> cutoff \<le> margin i" if "i < ?n" for i
    using that by (simp add: mask_def mg_len label_is_def mg_nth)
  have mask_eq: "mask = map (\<lambda>i. ?P i \<and> cutoff \<le> margin i) [0..<?n]"
    using ml mn by (auto intro: nth_equalityI)
  have "length (filter id mask) = length (filter (\<lambda>i. ?P i \<and> cutoff \<le> margin i) [0..<?n])"
    unfolding mask_eq by (simp add: length_filter_map comp_def)
  also have "\<dots> = length (filter (\<lambda>x. cutoff \<le> x) sel)"
    unfolding sel_def by (simp add: length_filter_map comp_def conj_commute)
  finally have "length (filter id mask) = length (filter (\<lambda>x. cutoff \<le> x) sel)" .
  moreover have "Suc (num2prune - 1) \<le> length (filter (\<lambda>x. rev (sort sel) ! (num2prune - 1) \<le> x) sel)"
    by (rule count_at_least_cutoff[OF kth])
  ultimately have "num2prune \<le> length (filter id mask)"
    using assms(4) by (simp add: cutoff_def sel_def)
  then show ?thesis using pm ml mn by blast
qed


subsection \<open>Exceptions of the loops, label counts\<close>

lemma collect_Inl:
  "x \<in> set xs \<Longrightarrow> f x = Inl e \<Longrightarrow> \<exists>e'. collect (map f xs) = Inl e'"
  by (induction xs) (auto split: sum.splits)

lemma for_loop_Inl:
  "x \<in> set xs \<Longrightarrow> (\<And>a. \<exists>e. f a x = Inl e) \<Longrightarrow> \<exists>e. for_loop f xs a = Inl e"
proof (induction xs arbitrary: a)
  case Nil
  then show ?case by simp
next
  case (Cons y ys)
  show ?case
  proof (cases "f a y")
    case (Inl e)
    then show ?thesis by simp
  next
    case (Inr a')
    show ?thesis
    proof (cases "x = y")
      case True
      then show ?thesis using Cons.prems(2)[of a] Inr by simp
    next
      case False
      then have "x \<in> set ys" using Cons.prems(1) by simp
      then show ?thesis using Cons.IH[of a'] Cons.prems(2) Inr by simp
    qed
  qed
qed

lemma collect_Inr:
  "collect (map f xs) = Inr ys \<Longrightarrow>
   length ys = length xs \<and> (\<forall>n<length xs. f (xs ! n) = Inr (ys ! n))"
proof (induction xs arbitrary: ys)
  case Nil
  then show ?case by simp
next
  case (Cons x xs)
  then show ?case
    by (auto split: sum.splits simp: nth_Cons split: nat.splits)
qed

lemma count_list_filter: "count_list s v = length (filter (\<lambda>l. l = v) s)"
proof -
  have "filter (\<lambda>l. l = v) s = filter ((=) v) s"
    by (rule filter_cong) auto
  then show ?thesis by (simp add: count_list_eq_length_filter)
qed

lemma mask_select_label_length:
  assumes "mask_select xs (label_is s j) = Inr sel"
  shows "length sel = count_list s (int j)"
proof -
  have len: "length xs = length s" using assms
    by (auto simp: mask_select_def label_is_def split: if_splits)
  have "sel = map fst (filter snd (zip xs (label_is s j)))"
    using assms by (auto simp: mask_select_def split: if_splits)
  then have "length sel = length (filter snd (zip xs (label_is s j)))" by simp
  also have "\<dots> = length (filter id (map snd (zip xs (label_is s j))))"
    by (simp add: length_filter_map comp_def)
  also have "\<dots> = length (filter id (label_is s j))"
    using len by (simp add: label_is_def)
  also have "\<dots> = length (filter (\<lambda>l. l = int j) s)"
    by (simp add: label_is_def length_filter_map comp_def)
  finally show ?thesis by (simp add: count_list_filter)
qed

lemma pair_mask_out_of_range:
  assumes "count_list s (int j) < num2prune"
  shows "\<exists>e. pair_mask s psx psx_k j num2prune = Inl e"
proof (cases "column psx j")
  case (Inl e)
  then show ?thesis by (simp add: pair_mask_def)
next
  case (Inr psx_j)
  let ?mg = "map (\<lambda>(a, b). a - b) (zip psx_k psx_j)"
  show ?thesis
  proof (cases "mask_select ?mg (label_is s j)")
    case (Inl e)
    then show ?thesis using Inr by (simp add: pair_mask_def)
  next
    case sel: (Inr selected)
    have "length selected = count_list s (int j)"
      by (rule mask_select_label_length[OF sel])
    then have "\<not> num2prune - 1 < length selected" using assms by simp
    then have "\<exists>e. neg_partition_at selected (num2prune - 1) = Inl e"
      unfolding neg_partition_at_def by (cases "selected = []") simp_all
    then show ?thesis using Inr sel by (auto simp: pair_mask_def)
  qed
qed

lemma bincount_nth:
  "bincount s = Inr s_counts \<Longrightarrow> k < length s_counts \<Longrightarrow> s_counts ! k = count_list s (int k)"
  by (auto simp del: upt_Suc simp: bincount_def split: if_splits)

lemma bincount_covers_classes:
  assumes "bincount s = Inr s_counts"
  shows "num_classes s \<le> length s_counts"
proof (cases "s = []")
  case True
  then show ?thesis by (simp add: num_classes_def)
next
  case False
  have nonneg: "\<forall>l \<in> set s. 0 \<le> l"
    using assms by (auto simp: bincount_def list_ex_iff split: if_splits)
  have len: "length s_counts = Suc (nat (Max (set s)))"
    using assms False by (auto simp: bincount_def split: if_splits)
  have "set s \<subseteq> {0..Max (set s)}" using nonneg by auto
  then have "card (set s) \<le> card {0..Max (set s)}" by (intro card_mono) auto
  also have "\<dots> = nat (Max (set s) + 1)" by simp
  also have "\<dots> = Suc (nat (Max (set s)))"
  proof -
    have "Max (set s) \<in> set s" using False by (simp add: Max_in)
    then have "0 \<le> Max (set s)" using nonneg by blast
    then show ?thesis by simp
  qed
  finally show ?thesis by (simp add: num_classes_def length_remdups_card_conv len)
qed

subsection \<open>Classes below the minimum, pruning counts above the label count\<close>

text \<open>
  Claim C9. For a class \<open>k\<close> of the loop whose number of observed labels is at most
  \<open>min_per_class\<close>, the noise mask of the class is the all-false mask of the length of
  the labels: the class is skipped without an exception, and no example is flagged on
  account of it.
\<close>

theorem small_class_mask_empty:
  assumes "bincount s = Inr s_counts" and "k < num_classes s"
    and "count_list s (int k) \<le> min_per_class"
    and "list_all (\<lambda>row. k < length row) psx"
  shows "class_mask s psx prune_count_matrix min_per_class s_counts k
           = Inr (replicate (length s) False)"
proof -
  have k: "k < length s_counts" using bincount_covers_classes[OF assms(1)] assms(2) by simp
  then have "item s_counts k = Inr (count_list s (int k))"
    using bincount_nth[OF assms(1) k] by (simp add: item_def)
  then show ?thesis using assms(3,4) by (simp add: class_mask_def column_def)
qed

theorem small_class_mask_empty_witness:
  "class_mask [0, 0, 1] [[3 / 4, 1 / 4], [1 / 4, 3 / 4], [3 / 4, 1 / 4]] [[2, 1], [0, 0]] 1 [2, 1] 1
     = Inr [False, False, False]"
proof -
  let ?s = "[0, 0, 1] :: int list"
  let ?psx = "[[3 / 4, 1 / 4], [1 / 4, 3 / 4], [3 / 4, 1 / 4]] :: real list list"
  have a1: "bincount ?s = Inr [2, 1]" by (simp add: bincount_def upt_rec)
  have a2: "1 < num_classes ?s" by (simp add: num_classes_def)
  have a3: "count_list ?s (int 1) \<le> 1" by simp
  have a4: "list_all (\<lambda>row. 1 < length row) ?psx" by simp
  show ?thesis
    using small_class_mask_empty[OF a1 a2 a3 a4, of "[[2, 1], [0, 0]]"] by simp
qed

text \<open>
  Claim C10. When the selection loop reaches a pair of a true class \<open>k\<close> (one with more
  than \<open>min_per_class\<close> observed labels) and a noisy label \<open>j \<noteq> k\<close> whose pruning count
  exceeds the number of examples of label \<open>j\<close> (none at all included), the partition is
  called with an index out of bounds and the selection of label errors ends in an
  exception: no list of indices is returned. Claim C3 covers the other side, a pruning
  count of at most the number of examples of label \<open>j\<close>.
\<close>

theorem partition_out_of_range:
  assumes "k < num_classes s" and "j < num_classes s" and "k \<noteq> j"
    and "min_per_class < count_list s (int k)"
    and "k < length prune_count_matrix" and "j < length (prune_count_matrix ! k)"
    and "count_list s (int j) < prune_count_matrix ! k ! j"
  shows "\<exists>e. label_errors_idx s psx prune_count_matrix min_per_class = Inl e"
proof -
  let ?pcm = prune_count_matrix
  have step: "\<exists>e. prune_step s psx ?pcm k psx_k a j = Inl e" for psx_k a
  proof -
    have "0 < ?pcm ! k ! j" using assms(7) by simp
    moreover obtain e where "pair_mask s psx psx_k j (?pcm ! k ! j) = Inl e"
      using pair_mask_out_of_range[OF assms(7)] by blast
    ultimately show ?thesis using assms(3,5,6) by (simp add: prune_step_def item_def)
  qed
  have cls: "\<exists>e. class_mask s psx ?pcm min_per_class s_counts k = Inl e"
    if sc: "bincount s = Inr s_counts" for s_counts
  proof (cases "column psx k")
    case (Inl e)
    then show ?thesis by (simp add: class_mask_def)
  next
    case (Inr psx_k)
    have kl: "k < length s_counts" using bincount_covers_classes[OF sc] assms(1) by simp
    then have it: "item s_counts k = Inr (count_list s (int k))"
      using bincount_nth[OF sc kl] by (simp add: item_def)
    have "j \<in> set [0..<num_classes s]" using assms(2) by simp
    then obtain e where "for_loop (prune_step s psx ?pcm k psx_k) [0..<num_classes s]
        (replicate (length psx) False) = Inl e"
      using for_loop_Inl[of j "[0..<num_classes s]" "prune_step s psx ?pcm k psx_k"] step by blast
    then show ?thesis using Inr it assms(4) by (simp add: class_mask_def)
  qed
  have "\<exists>e. noise_masks_per_class s psx ?pcm min_per_class = Inl e"
  proof (cases "bincount s")
    case (Inl e)
    then show ?thesis by (simp add: noise_masks_per_class_def)
  next
    case (Inr s_counts)
    obtain e where e: "class_mask s psx ?pcm min_per_class s_counts k = Inl e"
      using cls[OF Inr] by blast
    have "k \<in> set [0..<num_classes s]" using assms(1) by simp
    then show ?thesis
      using collect_Inl[of k "[0..<num_classes s]"
          "class_mask s psx ?pcm min_per_class s_counts" e] e Inr
      by (simp add: noise_masks_per_class_def)
  qed
  then show ?thesis
    by (auto simp: label_errors_idx_def label_errors_bool_def)
qed

theorem partition_out_of_range_witness:
  "label_errors_idx [0, 0, 1] [[3 / 4, 1 / 4], [1 / 4, 3 / 4], [3 / 4, 1 / 4]] [[2, 2], [0, 1]] 1
     = Inl ValueError"
proof -
  let ?s = "[0, 0, 1] :: int list"
  let ?psx = "[[3 / 4, 1 / 4], [1 / 4, 3 / 4], [3 / 4, 1 / 4]] :: real list list"
  let ?pcm = "[[2, 2], [0, 1]] :: nat list list"
  have a1: "0 < num_classes ?s" by (simp add: num_classes_def)
  have a2: "1 < num_classes ?s" by (simp add: num_classes_def)
  have a3: "(0::nat) \<noteq> 1" by simp
  have a4: "1 < count_list ?s (int 0)" by simp
  have a5: "0 < length ?pcm" by simp
  have a6: "1 < length (?pcm ! 0)" by simp
  have a7: "count_list ?s (int 1) < ?pcm ! 0 ! 1" by simp
  obtain e where e: "label_errors_idx ?s ?psx ?pcm 1 = Inl e"
    using partition_out_of_range[OF a1 a2 a3 a4 a5 a6 a7] by blast
  have t1: "num_classes ?s = 2" by (simp add: num_classes_def)
  have upt2: "[0..<2] = [0, Suc 0]" by (simp add: upt_rec)
  have t2: "bincount ?s = Inr [2, Suc 0]" by (simp add: bincount_def upt_rec)
  have t3: "pair_mask ?s ?psx [3 / 4, 1 / 4, 3 / 4] (Suc 0) 2 = Inl ValueError"
    by (simp add: pair_mask_def column_def label_is_def mask_select_def neg_partition_at_def)
  have t4: "class_mask ?s ?psx [[2, 2], [0, Suc 0]] (Suc 0) [2, Suc 0] 0 = Inl ValueError"
    by (simp add: class_mask_def column_def item_def t1 upt2
        prune_step_def t3)
  have "label_errors_idx ?s ?psx ?pcm 1 = Inl ValueError"
    by (simp add: label_errors_idx_def label_errors_bool_def noise_masks_per_class_def
        t1 t2 upt2 t4)
  with e show ?thesis by simp
qed

subsection \<open>The prediction override and the ranking\<close>

lemma unflag_loop:
  "for_loop (unflag_step s) (enumerate n ps) fl = Inr fl' \<Longrightarrow>
   length fl' = length fl \<and>
   (\<forall>i<length fl. fl' ! i \<longleftrightarrow>
      (fl ! i \<and> \<not> (n \<le> i \<and> i < n + length ps \<and> int (ps ! (i - n)) = s ! i)))"
proof (induction ps arbitrary: n fl)
  case Nil
  then show ?case by simp
next
  case (Cons p ps)
  from Cons.prems obtain fl1 where
    st: "unflag_step s fl (n, p) = Inr fl1" and
    rest: "for_loop (unflag_step s) (enumerate (Suc n) ps) fl1 = Inr fl'"
    by (auto split: sum.splits)
  have fl1: "fl1 = (if fl ! n \<and> int p = s ! n then fl[n := False] else fl)" and nl: "n < length fl"
    using st by (auto simp: unflag_step_def item_def split: if_splits)
  have len1: "length fl1 = length fl" using fl1 by simp
  note ih = Cons.IH[OF rest]
  have "fl' ! i \<longleftrightarrow>
      (fl ! i \<and> \<not> (n \<le> i \<and> i < n + length (p # ps) \<and> int ((p # ps) ! (i - n)) = s ! i))"
    if i: "i < length fl" for i
  proof (cases "i = n")
    case True
    then show ?thesis using ih i len1 fl1 by auto
  next
    case False
    have "fl1 ! i = fl ! i" using False fl1 by simp
    moreover have "(p # ps) ! (i - n) = ps ! (i - Suc n)" if "n \<le> i"
      using that False by (simp add: nth_Cons')
    ultimately show ?thesis using ih i len1 False by auto
  qed
  then show ?case using ih len1 by simp
qed

lemma mask_select_Inr:
  assumes "mask_select xs m = Inr ys"
  shows "length m = length xs" and "ys = map ((!) xs) (filter ((!) m) [0..<length xs])"
proof -
  show l: "length m = length xs" using assms by (auto simp: mask_select_def split: if_splits)
  show "ys = map ((!) xs) (filter ((!) m) [0..<length xs])"
    using assms mask_select_upt[OF l] by simp
qed

lemma label_errors_bool_flags:
  assumes "label_errors_bool s psx pcm mpc = Inr flags" and "i < length flags"
    and "i < length psx" and "flags ! i"
  shows "int (argmax_idx (psx ! i)) \<noteq> s ! i"
proof -
  from assms(1) obtain flags0 preds where
    pr: "collect (map argmax psx) = Inr preds" and
    lp: "for_loop (unflag_step s) (enumerate 0 preds) flags0 = Inr flags"
    by (auto simp: label_errors_bool_def split: sum.splits)
  have pl: "length preds = length psx" and pn: "argmax (psx ! i) = Inr (preds ! i)"
    using collect_Inr[OF pr] assms(3) by auto
  have pi: "preds ! i = argmax_idx (psx ! i)"
    using pn by (auto simp: argmax_def split: if_splits)
  have "length flags = length flags0" using unflag_loop[OF lp] by simp
  then show ?thesis using unflag_loop[OF lp] assms(2,3,4) pl pi by auto
qed

lemma rank_errors_Inr:
  assumes "rank_errors s psx flags = Inr out"
  shows "\<exists>idx self_conf rows maxes.
     mask_select [0..<length s] flags = Inr idx
     \<and> collect (map (self_confidence s psx) idx) = Inr self_conf
     \<and> mask_select psx flags = Inr rows
     \<and> collect (map row_max rows) = Inr maxes
     \<and> out = map fst (sort_key snd (zip idx (map (\<lambda>(a, b). a - b) (zip self_conf maxes))))"
  using assms by (auto simp: rank_errors_def Let_def split: sum.splits)

lemma rank_errors_set:
  assumes "rank_errors s psx flags = Inr out"
  shows "length flags = length s" and "length flags = length psx"
    and "set out \<subseteq> {i. i < length s \<and> flags ! i}"
proof -
  from rank_errors_Inr[OF assms] obtain idx self_conf rows maxes where
    idx: "mask_select [0..<length s] flags = Inr idx" and
    sc: "collect (map (self_confidence s psx) idx) = Inr self_conf" and
    rows: "mask_select psx flags = Inr rows" and
    mx: "collect (map row_max rows) = Inr maxes" and
    out: "out = map fst (sort_key snd (zip idx (map (\<lambda>(a, b). a - b) (zip self_conf maxes))))"
    by blast
  show "length flags = length s" using mask_select_Inr(1)[OF idx] by simp
  show "length flags = length psx" using mask_select_Inr(1)[OF rows] by simp
  have "idx = map ((!) [0..<length s]) (filter ((!) flags) [0..<length s])"
    using mask_select_Inr(2)[OF idx] by simp
  also have "\<dots> = filter ((!) flags) [0..<length s]"
    by (rule map_idI) simp
  finally have "set idx = {i. i < length s \<and> flags ! i}" by auto
  moreover have "set out \<subseteq> set idx"
    unfolding out by (auto dest: set_zip_leftD)
  ultimately show "set out \<subseteq> {i. i < length s \<and> flags ! i}" by simp
qed





text \<open>
  Claim C6. No index whose predicted class (the first greatest entry of its row) equals
  its given label is in the returned sequence; hence, when the prediction equals the label
  for every example, the returned sequence is empty.
\<close>

theorem prediction_override:
  assumes "label_errors_idx s psx prune_count_matrix min_per_class = Inr out"
  shows "(\<forall>i \<in> set out. i < length s \<and> int (argmax_idx (psx ! i)) \<noteq> s ! i)
    \<and> ((\<forall>i<length s. int (argmax_idx (psx ! i)) = s ! i) \<longrightarrow> out = [])"
proof -
  from assms obtain flags where
    fl: "label_errors_bool s psx prune_count_matrix min_per_class = Inr flags" and
    rk: "rank_errors s psx flags = Inr out"
    by (auto simp: label_errors_idx_def split: sum.splits)
  note rs = rank_errors_set[OF rk]
  have a: "i < length s \<and> int (argmax_idx (psx ! i)) \<noteq> s ! i" if "i \<in> set out" for i
  proof -
    have i: "i < length s" "flags ! i" using that rs(3) by auto
    then show ?thesis using label_errors_bool_flags[OF fl, of i] rs(1,2) by simp
  qed
  have "out = []" if "\<forall>i<length s. int (argmax_idx (psx ! i)) = s ! i"
  proof (rule ccontr)
    assume "out \<noteq> []"
    then obtain i where "i \<in> set out" by (cases out) auto
    then show False using a that by blast
  qed
  then show ?thesis using a by blast
qed

theorem prediction_override_witness:
  "label_errors_idx [0, 0, 1, 1] [[3 / 4, 1 / 4], [1 / 4, 3 / 4], [3 / 4, 1 / 4], [1 / 8, 7 / 8]]
      [[1, 1], [1, 1]] 1 = Inr [1, 2]
   \<and> int (argmax_idx ([[3 / 4, 1 / 4], [1 / 4, 3 / 4], [3 / 4, 1 / 4], [1 / 8, 7 / 8 :: real]] ! 1))
       \<noteq> [0, 0, 1, 1] ! 1"
proof -
  have e: "label_errors_idx [0, 0, 1, 1]
      [[3 / 4, 1 / 4], [1 / 4, 3 / 4], [3 / 4, 1 / 4], [1 / 8, 7 / 8]] [[1, 1], [1, 1]] 1 = Inr [1, 2]"
    by code_simp
  show ?thesis using prediction_override[OF e] e by simp
qed




subsection \<open>Inputs of the wrong shape\<close>

text \<open>
  Claim C8 says that a label outside \<open>[0, K)\<close> makes the estimation fail before any
  computation. The labels \<open>[0, 2]\<close> with two columns of probabilities give \<open>K = 2\<close>, the
  label 2 is out of range, and the confident joint is returned.
\<close>

theorem no_input_check_counterexample:
  "confident_joint [0, 2] [[3 / 4, 1 / 4], [1 / 4, 3 / 4]] = Inr [[1, 0], [0, 0]]"
  by code_simp

text \<open>
  Claim C8, amended. When the number of labels differs from the number of rows of
  probabilities, the joint estimation ends in an index error that the computation itself
  raises; it is not an error of an input check made beforehand.
\<close>

theorem shape_mismatch_index_error:
  assumes "length s \<noteq> length psx"
  shows "confident_joint s psx = Inl IndexError"
proof (cases "s = []")
  case True
  then obtain row rows where psx: "psx = row # rows" using assms by (cases psx) auto
  show ?thesis
    using True by (simp add: confident_joint_def thresholds_def num_classes_def psx count_step_def)
next
  case False
  then have "0 < num_classes s" by (cases s) (auto simp: num_classes_def)
  then have upt: "[0..<num_classes s] = 0 # [1..<num_classes s]"
    by (simp add: upt_rec)
  have "threshold s psx 0 = Inl IndexError"
  proof (cases "column psx 0")
    case (Inl e)
    then have "e = IndexError" by (auto simp: column_def split: if_splits)
    then show ?thesis using Inl by (simp add: threshold_def)
  next
    case (Inr c)
    then have "length c = length psx" by (auto simp: column_def split: if_splits)
    then have "mask_select c (label_is s 0) = Inl IndexError"
      using assms by (simp add: mask_select_def label_is_def)
    then show ?thesis using Inr by (simp add: threshold_def)
  qed
  then have "thresholds s psx = Inl IndexError"
    unfolding thresholds_def upt by simp
  then show ?thesis by (simp add: confident_joint_def)
qed

theorem shape_mismatch_index_error_witness:
  "length [0, 1, 1 :: int] \<noteq> length [[3 / 4, 1 / 4], [1 / 4, 3 / 4 :: real]]
   \<and> confident_joint [0, 1, 1] [[3 / 4, 1 / 4], [1 / 4, 3 / 4]] = Inl IndexError"
proof -
  have a: "length [0, 1, 1 :: int] \<noteq> length [[3 / 4, 1 / 4], [1 / 4, 3 / 4 :: real]]" by simp
  show ?thesis using shape_mismatch_index_error[OF a] a by simp
qed

subsection \<open>The counting loop on valid inputs\<close>

lemma for_loop_append:
  "for_loop f (xs @ ys) a =
     (case for_loop f xs a of Inl e \<Rightarrow> Inl e | Inr b \<Rightarrow> for_loop f ys b)"
  by (induction xs arbitrary: a) (auto split: sum.splits)

lemma for_loop_invariant:
  assumes "P a" and "\<And>a x. x \<in> set xs \<Longrightarrow> P a \<Longrightarrow> \<exists>a'. f a x = Inr a' \<and> P a'"
  shows "\<exists>b. for_loop f xs a = Inr b \<and> P b"
  using assms
proof (induction xs arbitrary: a)
  case Nil
  then show ?case by simp
next
  case (Cons x xs)
  obtain a' where a': "f a x = Inr a'" "P a'" using Cons.prems(2)[of x a] Cons.prems(1) by auto
  have "\<exists>b. for_loop f xs a' = Inr b \<and> P b"
    by (rule Cons.IH[OF a'(2)]) (use Cons.prems(2) in auto)
  then show ?case using a'(1) by simp
qed

lemma collect_all_Inr:
  "(\<And>x. x \<in> set xs \<Longrightarrow> f x = Inr (g x)) \<Longrightarrow> collect (map f xs) = Inr (map g xs)"
  by (induction xs) auto

lemma mean_le_member:
  assumes "xs \<noteq> []"
  shows "\<exists>x \<in> set xs. sum_list xs / real (length xs) \<le> x"
proof (rule ccontr)
  assume "\<not> ?thesis"
  then have lt: "\<And>x. x \<in> set xs \<Longrightarrow> x < sum_list xs / real (length xs)" by force
  let ?\<mu> = "sum_list xs / real (length xs)"
  have "sum_list (map (\<lambda>x. x) xs) < sum_list (map (\<lambda>x. ?\<mu>) xs)"
    by (rule sum_list_strict_mono) (use assms lt in auto)
  then have "sum_list xs < real (length xs) * ?\<mu>" by (simp add: sum_list_replicate map_replicate_const)
  then show False using assms by simp
qed

lemma bump_shape:
  assumes "length joint = K" and "\<forall>r<K. length (joint ! r) = K" and "r < K"
  shows "length (bump joint r c) = K" and "\<forall>r'<K. length (bump joint r c ! r') = K"
  using assms by (auto simp: bump_def nth_list_update)

lemma bump_row_sum:
  assumes "length joint = K" and "\<forall>r<K. length (joint ! r) = K" and "r < K" and "c < K"
    and "r' < K"
  shows "sum_list (bump joint r c ! r') = sum_list (joint ! r') + (if r' = r then 1 else 0)"
proof (cases "r' = r")
  case True
  have "sum_list ((joint ! r)[c := Suc (joint ! r ! c)]) = sum_list (joint ! r) + Suc (joint ! r ! c) - joint ! r ! c"
    by (rule sum_list_update) (use assms in simp)
  then show ?thesis using True assms by (simp add: bump_def)
next
  case False
  then show ?thesis using assms by (simp add: bump_def)
qed

lemma count_step_valid:
  assumes "length row = K" and "length thr = K"
    and "length joint = K" and "\<forall>r<K. length (joint ! r) = K"
    and "i < length s" and "0 \<le> s ! i" and "s ! i < int K"
  shows "\<exists>J'. count_step s thr joint (i, row) = Inr J'
     \<and> ((J' = joint \<and> \<not> (\<exists>k<K. geq_thr (row ! k) (thr ! k)))
        \<or> (\<exists>c<K. J' = bump joint (nat (s ! i)) c))"
proof -
  define bins where "bins = map (\<lambda>k. geq_thr (row ! k) (thr ! k)) [0..<K]"
  have bins: "confident_bins row thr = Inr bins"
    using confident_bins_eq_length[of row thr] assms(1,2) by (simp add: bins_def)
  have bl: "length bins = K" by (simp add: bins_def)
  have num: "length (filter id bins) = card {k. k < K \<and> geq_thr (row ! k) (thr ! k)}"
    unfolding count_true_card bl by (rule arg_cong[where f=card]) (auto simp: bins_def)
  have r: "py_index (length joint) (s ! i) = Inr (nat (s ! i))"
    using assms(3,6,7) by (simp add: py_index_nonneg)
  have rl: "length (joint ! nat (s ! i)) = K"
    using assms(4,6,7) by (simp add: nat_less_iff)
  have inc: "\<And>c. c < K \<Longrightarrow> increment joint (s ! i) c = Inr (bump joint (nat (s ! i)) c)"
    by (simp add: increment_def r rl)
  consider (none) "length (filter id bins) = 0" | (one) "length (filter id bins) = 1"
    | (many) "1 < length (filter id bins)" by linarith
  then show ?thesis
  proof cases
    case none
    then have "{k. k < K \<and> geq_thr (row ! k) (thr ! k)} = {}" using num by simp
    then have "\<not> (\<exists>k<K. geq_thr (row ! k) (thr ! k))" by blast
    then show ?thesis using none assms(5) by (simp add: count_step_def bins)
  next
    case one
    then have ne: "bins \<noteq> []" by auto
    have "argmax_idx bins < K" using argmax_idx_props(1)[OF ne] bl by simp
    then show ?thesis using one assms(5) ne by (auto simp: count_step_def bins argmax_def inc)
  next
    case many
    then have "bins \<noteq> []" by auto
    then have ne: "row \<noteq> []" using bl assms(1) by auto
    have "argmax_idx row < K" using argmax_idx_props(1)[OF ne] assms(1) by simp
    then show ?thesis using many assms(5) ne by (auto simp: count_step_def bins argmax_def inc)
  qed
qed

lemma all_classes_present:
  assumes "\<forall>l \<in> set s. 0 \<le> l \<and> l < int (num_classes s)" and "k < num_classes s"
  shows "int k \<in> set s"
proof -
  let ?K = "num_classes s"
  have sub: "set s \<subseteq> int ` {0..<?K}"
  proof
    fix l assume "l \<in> set s"
    then have "0 \<le> l" "l < int ?K" using assms(1) by auto
    then have "nat l \<in> {0..<?K}" "l = int (nat l)" by auto
    then show "l \<in> int ` {0..<?K}" by blast
  qed
  have "card (int ` {0..<?K}) = ?K" by (simp add: card_image)
  also have "\<dots> = card (set s)" by (simp add: num_classes_def length_remdups_card_conv)
  finally have "set s = int ` {0..<?K}"
    using sub by (intro card_subset_eq) auto
  then show ?thesis using assms(2) by auto
qed

lemma threshold_valid:
  assumes "length s = length psx" and "list_all (\<lambda>row. k < length row) psx"
  shows "threshold s psx k =
     Inr (mean (map (\<lambda>i. psx ! i ! k) (filter (\<lambda>i. s ! i = int k) [0..<length s])))"
proof -
  let ?c = "map (\<lambda>row. row ! k) psx"
  have col: "column psx k = Inr ?c" using assms(2) by (simp add: column_def)
  have filt: "filter ((!) (label_is s k)) [0..<length ?c] = filter (\<lambda>i. s ! i = int k) [0..<length s]"
    using assms(1) by (auto intro!: filter_cong simp: label_is_def)
  have "mask_select ?c (label_is s k) = Inr (map ((!) ?c) (filter ((!) (label_is s k)) [0..<length ?c]))"
    by (rule mask_select_upt) (simp add: label_is_def assms(1))
  also have "map ((!) ?c) (filter ((!) (label_is s k)) [0..<length ?c])
      = map (\<lambda>i. psx ! i ! k) (filter (\<lambda>i. s ! i = int k) [0..<length s])"
    unfolding filt by (rule map_cong) (auto simp: assms(1))
  finally show ?thesis by (simp add: threshold_def col)
qed

lemma confident_example_exists:
  assumes "length s = length psx" and "list_all (\<lambda>row. k < length row) psx"
    and "int k \<in> set s" and "threshold s psx k = Inr t"
  shows "\<exists>i<length s. s ! i = int k \<and> geq_thr (psx ! i ! k) t"
proof -
  let ?sel = "map (\<lambda>i. psx ! i ! k) (filter (\<lambda>i. s ! i = int k) [0..<length s])"
  have t: "t = mean ?sel" using threshold_valid[OF assms(1,2)] assms(4) by simp
  obtain i where i: "i < length s" "s ! i = int k" using assms(3) by (auto simp: in_set_conv_nth)
  then have "i \<in> set (filter (\<lambda>i. s ! i = int k) [0..<length s])" by simp
  then have ne: "?sel \<noteq> []" by (metis empty_iff list.set(1) map_is_Nil_conv)
  obtain x where x: "x \<in> set ?sel" "sum_list ?sel / real (length ?sel) \<le> x"
    using mean_le_member[OF ne] by blast
  then obtain j where j: "j < length s" "s ! j = int k" "x = psx ! j ! k" by auto
  have "geq_thr (psx ! j ! k) t"
    using x(2) j(3) ne unfolding t mean_def geq_thr_def by simp
  then show ?thesis using j by blast
qed

lemma thresholds_valid:
  assumes "length s = length psx" and "\<forall>row \<in> set psx. length row = num_classes s"
  shows "\<exists>thr. thresholds s psx = Inr thr \<and> length thr = num_classes s
     \<and> (\<forall>k<num_classes s. threshold s psx k = Inr (thr ! k))"
proof -
  let ?K = "num_classes s"
  let ?g = "\<lambda>k. mean (map (\<lambda>i. psx ! i ! k) (filter (\<lambda>i. s ! i = int k) [0..<length s]))"
  have th: "threshold s psx k = Inr (?g k)" if "k < ?K" for k
    by (rule threshold_valid[OF assms(1)]) (use assms(2) that in \<open>simp add: list_all_iff\<close>)
  have "thresholds s psx = Inr (map ?g [0..<?K])"
    unfolding thresholds_def by (rule collect_all_Inr) (simp add: th)
  then show ?thesis using th by simp
qed

lemma confident_joint_valid:
  assumes len: "length s = length psx"
    and rows: "\<forall>row \<in> set psx. length row = num_classes s"
    and labels: "\<forall>l \<in> set s. 0 \<le> l \<and> l < int (num_classes s)"
  shows "\<exists>J. confident_joint s psx = Inr J \<and> length J = num_classes s
     \<and> (\<forall>r<num_classes s. length (J ! r) = num_classes s \<and> 0 < sum_list (J ! r))"
proof -
  let ?K = "num_classes s"
  let ?n = "length psx"
  obtain thr where thr: "thresholds s psx = Inr thr" "length thr = ?K"
    and thk: "\<forall>k<?K. threshold s psx k = Inr (thr ! k)"
    using thresholds_valid[OF len rows] by blast
  let ?f = "count_step s thr"
  let ?J0 = "replicate ?K (replicate ?K (0::nat))"
  define shape where "shape = (\<lambda>J :: nat list list. length J = ?K \<and> (\<forall>r<?K. length (J ! r) = ?K))"
  have cj: "confident_joint s psx = for_loop ?f (enumerate 0 psx) ?J0"
    by (simp add: confident_joint_def thr)
  have shape0: "shape ?J0" by (simp add: shape_def)
  have elem: "\<exists>i<?n. x = (i, psx ! i)" if "x \<in> set (enumerate 0 psx)" for x
  proof -
    obtain i y where xy: "x = (i, y)" by (cases x) auto
    show ?thesis using that unfolding xy by (auto simp: in_set_enumerate_eq)
  qed
  have lab: "0 \<le> s ! i \<and> s ! i < int ?K \<and> nat (s ! i) < ?K" if "i < ?n" for i
    using labels that len by (auto simp: nat_less_iff)
  have rowlen: "length (psx ! i) = ?K" if "i < ?n" for i using rows that by simp
  have step: "\<exists>J'. ?f J (i, psx ! i) = Inr J'
       \<and> ((J' = J \<and> \<not> (\<exists>k<?K. geq_thr (psx ! i ! k) (thr ! k)))
          \<or> (\<exists>c<?K. J' = bump J (nat (s ! i)) c))" if "shape J" "i < ?n" for J i
    by (rule count_step_valid)
      (use that lab[OF that(2)] rowlen[OF that(2)] thr(2) len in \<open>auto simp: shape_def\<close>)
  have step_shape: "\<exists>J'. ?f J x = Inr J' \<and> shape J'"
    if xin: "x \<in> set (enumerate 0 psx)" and shJ: "shape J" for J x
  proof -
    obtain i where i: "i < ?n" "x = (i, psx ! i)" using elem[OF xin] by blast
    obtain J' where J': "?f J (i, psx ! i) = Inr J'"
      "J' = J \<or> (\<exists>c<?K. J' = bump J (nat (s ! i)) c)"
      using step[OF shJ i(1)] by blast
    have "shape J'"
      using J'(2) shJ lab[OF i(1)] bump_shape[of J ?K "nat (s ! i)"]
      unfolding shape_def by auto
    then show ?thesis using J'(1) i(2) by simp
  qed
  obtain J where J: "for_loop ?f (enumerate 0 psx) ?J0 = Inr J" "shape J"
    using for_loop_invariant[of shape ?J0 "enumerate 0 psx" ?f] shape0 step_shape by blast
  have pos: "0 < sum_list (J ! r)" if r: "r < ?K" for r
  proof -
    have "int r \<in> set s" by (rule all_classes_present[OF labels r])
    moreover have "list_all (\<lambda>row. r < length row) psx" using rows r by (simp add: list_all_iff)
    ultimately obtain i where i: "i < length s" "s ! i = int r" "geq_thr (psx ! i ! r) (thr ! r)"
      using confident_example_exists[OF len _ _ ] thk r by blast
    have i': "i < ?n" using i(1) len by simp
    have split: "enumerate 0 psx =
        take i (enumerate 0 psx) @ (i, psx ! i) # drop (Suc i) (enumerate 0 psx)"
      using id_take_nth_drop[of i "enumerate 0 psx"] i' by (simp add: nth_enumerate_eq)
    define inv where "inv = (\<lambda>J. shape J \<and> 0 < sum_list (J ! r))"
    have pre_sub: "set (take i (enumerate 0 psx)) \<subseteq> set (enumerate 0 psx)"
      by (rule set_take_subset)
    have post_sub: "set (drop (Suc i) (enumerate 0 psx)) \<subseteq> set (enumerate 0 psx)"
      by (rule set_drop_subset)
    obtain J1 where J1: "for_loop ?f (take i (enumerate 0 psx)) ?J0 = Inr J1" "shape J1"
      using for_loop_invariant[of shape ?J0 "take i (enumerate 0 psx)" ?f]
        shape0 step_shape pre_sub by blast
    obtain J2 where J2: "?f J1 (i, psx ! i) = Inr J2"
      "(J2 = J1 \<and> \<not> (\<exists>k<?K. geq_thr (psx ! i ! k) (thr ! k)))
          \<or> (\<exists>c<?K. J2 = bump J1 (nat (s ! i)) c)"
      using step[OF J1(2) i'] by blast
    then obtain c where c: "c < ?K" "J2 = bump J1 r c" using i(2,3) r by auto
    have "sum_list (J2 ! r) = sum_list (J1 ! r) + 1"
      using bump_row_sum[of J1 ?K r c r] J1(2) r c unfolding shape_def by simp
    moreover have "shape J2"
      using c J1(2) r bump_shape[of J1 ?K r c] unfolding shape_def by auto
    ultimately have inv2: "inv J2" by (simp add: inv_def)
    have step_inv: "\<exists>J'. ?f Ja x = Inr J' \<and> inv J'"
      if xd: "x \<in> set (drop (Suc i) (enumerate 0 psx))" and ia: "inv Ja" for Ja x
    proof -
      have xin: "x \<in> set (enumerate 0 psx)" using xd post_sub by blast
      obtain j where j: "j < ?n" "x = (j, psx ! j)" using elem[OF xin] by blast
      have sh: "shape Ja" using ia by (simp add: inv_def)
      obtain J' where J': "?f Ja (j, psx ! j) = Inr J'"
        "J' = Ja \<or> (\<exists>c<?K. J' = bump Ja (nat (s ! j)) c)"
        using step[OF sh j(1)] by blast
      have "shape J'"
        using J'(2) sh lab[OF j(1)] bump_shape[of Ja ?K "nat (s ! j)"]
        unfolding shape_def by auto
      moreover have "sum_list (Ja ! r) \<le> sum_list (J' ! r)"
        using J'(2) sh lab[OF j(1)] r bump_row_sum[of Ja ?K "nat (s ! j)" _ r]
        unfolding shape_def by auto
      ultimately have "inv J'" using ia by (simp add: inv_def)
      then show ?thesis using J'(1) j(2) by simp
    qed
    obtain J3 where J3: "for_loop ?f (drop (Suc i) (enumerate 0 psx)) J2 = Inr J3" "inv J3"
      using for_loop_invariant[of inv J2 "drop (Suc i) (enumerate 0 psx)" ?f] inv2 step_inv
      by blast
    have "for_loop ?f (enumerate 0 psx) ?J0 = Inr J3"
      by (subst split) (simp add: for_loop_append J1(1) J2(1) J3(1))
    then have "J3 = J" using J(1) by simp
    then show ?thesis using J3(2) by (simp add: inv_def)
  qed
  show ?thesis using cj J pos unfolding shape_def by auto
qed

subsection \<open>A class without examples\<close>

text \<open>
  Claim C7 says that the threshold of a class without examples is 0. It is not: the labels
  \<open>[0, 0, 2]\<close> give \<open>K = 2\<close>, no example has the label 1, and the threshold of class 1 is
  the mean of an empty selection, not-a-number.
\<close>

theorem empty_class_threshold_counterexample:
  "count_list [0, 0, 2] (int 1) = 0
   \<and> thresholds [0, 0, 2] [[3 / 4, 1 / 4], [1 / 4, 3 / 4], [1 / 2, 1 / 2]]
       = Inr [Some (1 / 2), None]"
  by code_simp

text \<open>
  Claim C7, amended. If no example has the observed label \<open>k\<close>, for a class \<open>k\<close> of the
  loop and inputs of matching shape, the thresholds are computed without an exception, the
  threshold of \<open>k\<close> is not-a-number, and every comparison against it is false: \<open>k\<close> is in
  the confident set of no example.
\<close>

theorem empty_class_threshold:
  assumes "length s = length psx" and "\<forall>row \<in> set psx. length row = num_classes s"
    and "k < num_classes s" and "count_list s (int k) = 0"
  shows "\<exists>thr. thresholds s psx = Inr thr \<and> length thr = num_classes s \<and> thr ! k = None
    \<and> (\<forall>row. length row = num_classes s \<longrightarrow>
          (\<exists>bins. confident_bins row thr = Inr bins \<and> length bins = num_classes s
             \<and> \<not> bins ! k))"
proof -
  obtain thr where thr: "thresholds s psx = Inr thr" "length thr = num_classes s"
    and thk: "threshold s psx k = Inr (thr ! k)"
    using thresholds_valid[OF assms(1,2)] assms(3) by blast
  let ?c = "map (\<lambda>row. row ! k) psx"
  have col: "column psx k = Inr ?c"
    using assms(2,3) by (simp add: column_def list_all_iff)
  obtain sel where sel: "mask_select ?c (label_is s k) = Inr sel"
    using assms(1) by (simp add: mask_select_def label_is_def)
  have "length sel = 0" using mask_select_label_length[OF sel] assms(4) by simp
  then have "threshold s psx k = Inr None"
    by (simp add: threshold_def col sel mean_def)
  then have none: "thr ! k = None" using thk by simp
  have "\<exists>bins. confident_bins row thr = Inr bins \<and> length bins = num_classes s \<and> \<not> bins ! k"
    if "length row = num_classes s" for row
    using that thr(2) assms(3) none by (simp add: confident_bins_eq_length geq_thr_def)
  then show ?thesis using thr none by blast
qed

theorem empty_class_threshold_witness:
  "thresholds [0, 0, 2] [[3 / 4, 1 / 4], [1 / 4, 3 / 4], [1 / 2, 1 / 2]]
     = Inr [Some (1 / 2), None]
   \<and> confident_bins [3 / 4, 1 / 4] [Some (1 / 2), None] = Inr [True, False]"
proof -
  let ?s = "[0, 0, 2] :: int list"
  let ?psx = "[[3 / 4, 1 / 4], [1 / 4, 3 / 4], [1 / 2, 1 / 2]] :: real list list"
  have K: "num_classes ?s = 2" by (simp add: num_classes_def)
  have a1: "length ?s = length ?psx" by simp
  have a2: "\<forall>row \<in> set ?psx. length row = num_classes ?s" by (simp add: K)
  have a3: "1 < num_classes ?s" by (simp add: K)
  have a4: "count_list ?s (int 1) = 0" by simp
  have e: "thresholds ?s ?psx = Inr [Some (1 / 2), None]" by code_simp
  obtain thr where t: "thresholds ?s ?psx = Inr thr"
    and b: "\<forall>row. length row = num_classes ?s \<longrightarrow>
          (\<exists>bins. confident_bins row thr = Inr bins \<and> length bins = num_classes ?s
             \<and> \<not> bins ! 1)"
    using empty_class_threshold[OF a1 a2 a3 a4] by blast
  have thr: "thr = [Some (1 / 2), None]" using t e by simp
  have "confident_bins [3 / 4, 1 / 4] [Some (1 / 2), None] = Inr [True, False]"
    by code_simp
  then show ?thesis using e b thr by simp
qed

subsection \<open>The confident joint\<close>

lemma bump_cell:
  assumes "length joint = K" and "\<forall>r<K. length (joint ! r) = K"
    and "r < K" and "c < K" and "a < K" and "b < K"
  shows "bump joint r c ! a ! b = joint ! a ! b + (if a = r \<and> b = c then 1 else 0)"
  using assms by (auto simp: bump_def nth_list_update)

lemma card_less_Suc_cond:
  "card {i. i < Suc m \<and> P i} = card {i. i < m \<and> P i} + (if P m then 1 else 0)"
proof (cases "P m")
  case True
  then have "{i. i < Suc m \<and> P i} = insert m {i. i < m \<and> P i}"
    by (auto simp: less_Suc_eq)
  then show ?thesis using True by simp
next
  case False
  then have "{i. i < Suc m \<and> P i} = {i. i < m \<and> P i}"
    by (auto simp: less_Suc_eq)
  then show ?thesis using False by simp
qed

lemma enumerate_take_Suc:
  "m < length xs \<Longrightarrow>
   enumerate 0 (take (Suc m) xs) = enumerate 0 (take m xs) @ [(m, xs ! m)]"
  by (simp add: take_Suc_conv_app_nth enumerate_append_eq)

text \<open>
  Claim C1. For every valid input (as many labels as rows of probabilities, \<open>K\<close>
  probabilities in every row, every label in \<open>[0, K)\<close>) the thresholds are the means of
  the probabilities of a class over the examples of that label, and the confident joint is
  built from every example \<open>i\<close> as follows. The confident set \<open>C\<close> of \<open>i\<close> is the set of
  classes \<open>k\<close> with \<open>psx ! i ! k \<ge> thr ! k - 1e-6\<close>, the comparison being inclusive. The
  cell \<open>joint ! a ! b\<close> is the number of examples of label \<open>a\<close> for which either \<open>C\<close> is
  \<open>{b}\<close>, or \<open>C\<close> has more than one member and \<open>b\<close> is the first greatest entry of the row;
  an example with an empty confident set is counted in no cell. In the witness the second
  example sits exactly on the threshold minus \<open>1e-6\<close> and is counted.
\<close>

theorem confident_joint_counts:
  assumes len: "length s = length psx"
    and rows: "\<forall>row \<in> set psx. length row = num_classes s"
    and labels: "\<forall>l \<in> set s. 0 \<le> l \<and> l < int (num_classes s)"
  shows "\<exists>thr joint. thresholds s psx = Inr thr \<and> confident_joint s psx = Inr joint
    \<and> length thr = num_classes s \<and> length joint = num_classes s
    \<and> (\<forall>k<num_classes s.
          thr ! k = mean (map (\<lambda>i. psx ! i ! k) (filter (\<lambda>i. s ! i = int k) [0..<length s])))
    \<and> (\<forall>a<num_classes s. length (joint ! a) = num_classes s
          \<and> (\<forall>b<num_classes s. joint ! a ! b =
                card {i. i < length s \<and> s ! i = int a
                   \<and> (let C = {k. k < num_classes s \<and>
                                   (case thr ! k of None \<Rightarrow> False
                                    | Some t \<Rightarrow> t - 1 / 1000000 \<le> psx ! i ! k)}
                       in C = {b} \<or> 1 < card C \<and> b = argmax_idx (psx ! i))}))"
proof -
  let ?K = "num_classes s"
  let ?n = "length psx"
  obtain thr where thr: "thresholds s psx = Inr thr" "length thr = ?K"
    and thk: "\<forall>k<?K. threshold s psx k = Inr (thr ! k)"
    using thresholds_valid[OF len rows] by blast
  have means: "thr ! k = mean (map (\<lambda>i. psx ! i ! k) (filter (\<lambda>i. s ! i = int k) [0..<length s]))"
    if "k < ?K" for k
  proof -
    have "list_all (\<lambda>row. k < length row) psx" using rows that by (simp add: list_all_iff)
    then show ?thesis using threshold_valid[OF len, of k] thk that by simp
  qed
  define C where "C = (\<lambda>i. {k. k < ?K \<and> (case thr ! k of None \<Rightarrow> False
                                    | Some t \<Rightarrow> t - 1 / 1000000 \<le> psx ! i ! k)})"
  define hit where "hit = (\<lambda>i b. C i = {b} \<or> 1 < card (C i) \<and> b = argmax_idx (psx ! i))"
  define inv where "inv = (\<lambda>m (J :: nat list list). length J = ?K
      \<and> (\<forall>a<?K. length (J ! a) = ?K
            \<and> (\<forall>b<?K. J ! a ! b = card {i. i < m \<and> s ! i = int a \<and> hit i b})))"
  let ?f = "count_step s thr"
  let ?J0 = "replicate ?K (replicate ?K (0::nat))"
  have finC: "finite (C i)" for i by (simp add: C_def)
  have prefix: "m \<le> ?n \<Longrightarrow> \<exists>J. for_loop ?f (enumerate 0 (take m psx)) ?J0 = Inr J \<and> inv m J" for m
  proof (induction m)
    case 0
    then show ?case by (simp add: inv_def)
  next
    case (Suc m)
    then have m: "m < ?n" by simp
    obtain J where J: "for_loop ?f (enumerate 0 (take m psx)) ?J0 = Inr J" "inv m J"
      using Suc by auto
    have shape: "length J = ?K" "\<forall>r<?K. length (J ! r) = ?K" using J(2) by (auto simp: inv_def)
    have lab: "0 \<le> s ! m" "s ! m < int ?K" using labels m len by auto
    then have r: "nat (s ! m) < ?K" by (simp add: nat_less_iff)
    have rowlen: "length (psx ! m) = ?K" using rows m by simp
    have ms: "m < length s" using m len by simp
    have cases: "(\<forall>k. C m = {k} \<longrightarrow> ?f J (m, psx ! m) = Inr (bump J (nat (s ! m)) k))
      \<and> (1 < card (C m) \<longrightarrow>
           ?f J (m, psx ! m) = Inr (bump J (nat (s ! m)) (argmax_idx (psx ! m)))
           \<and> argmax_idx (psx ! m) < ?K \<and> psx ! m ! argmax_idx (psx ! m) = Max (set (psx ! m)))
      \<and> (C m = {} \<longrightarrow> ?f J (m, psx ! m) = Inr J)"
      unfolding C_def by (rule count_step_cases[OF rowlen thr(2) shape ms lab])
    have eqa: "(s ! m = int a) = (a = nat (s ! m))" for a using lab(1) by auto
    have "\<exists>J'. ?f J (m, psx ! m) = Inr J' \<and> inv (Suc m) J'"
    proof -
      consider (none) "C m = {}" | (one) k where "C m = {k}" | (many) "1 < card (C m)"
      proof -
        have "card (C m) = 0 \<or> card (C m) = 1 \<or> 1 < card (C m)" by linarith
        then show ?thesis using that finC[of m] by (auto simp: card_1_singleton_iff)
      qed
      then show ?thesis
      proof cases
        case none
        then have st: "?f J (m, psx ! m) = Inr J" using cases by blast
        have nh: "\<not> hit m b" for b using none by (simp add: hit_def)
        have "inv (Suc m) J"
          using J(2) unfolding inv_def by (simp add: card_less_Suc_cond nh)
        then show ?thesis using st by blast
      next
        case (one k)
        then have st: "?f J (m, psx ! m) = Inr (bump J (nat (s ! m)) k)" using cases by blast
        have k: "k < ?K" using one by (auto simp: C_def)
        have h: "hit m b = (b = k)" for b using one by (auto simp: hit_def)
        have "inv (Suc m) (bump J (nat (s ! m)) k)"
          unfolding inv_def
          using J(2) bump_shape[OF shape r, of k] bump_cell[OF shape r k]
          by (auto simp: inv_def card_less_Suc_cond h eqa)
        then show ?thesis using st by blast
      next
        case many
        then have st: "?f J (m, psx ! m) = Inr (bump J (nat (s ! m)) (argmax_idx (psx ! m)))"
          and c: "argmax_idx (psx ! m) < ?K" using cases by blast+
        have "C m \<noteq> {b}" for b using many by auto
        then have h: "hit m b = (b = argmax_idx (psx ! m))" for b using many by (auto simp: hit_def)
        have "inv (Suc m) (bump J (nat (s ! m)) (argmax_idx (psx ! m)))"
          unfolding inv_def
          using J(2) bump_shape[OF shape r, of "argmax_idx (psx ! m)"] bump_cell[OF shape r c]
          by (auto simp: inv_def card_less_Suc_cond h eqa)
        then show ?thesis using st by blast
      qed
    qed
    then obtain J' where J': "?f J (m, psx ! m) = Inr J'" "inv (Suc m) J'" by blast
    have "for_loop ?f (enumerate 0 (take (Suc m) psx)) ?J0 = Inr J'"
      by (simp add: enumerate_take_Suc[OF m] for_loop_append J(1) J'(1))
    then show ?case using J'(2) by blast
  qed
  obtain J where J: "for_loop ?f (enumerate 0 psx) ?J0 = Inr J" "inv ?n J"
    using prefix[of ?n] by auto
  have cj: "confident_joint s psx = Inr J" by (simp add: confident_joint_def thr J(1))
  have cells: "\<forall>a<?K. length (J ! a) = ?K
          \<and> (\<forall>b<?K. J ! a ! b = card {i. i < length s \<and> s ! i = int a
                   \<and> (let C = {k. k < ?K \<and> (case thr ! k of None \<Rightarrow> False
                                    | Some t \<Rightarrow> t - 1 / 1000000 \<le> psx ! i ! k)}
                       in C = {b} \<or> 1 < card C \<and> b = argmax_idx (psx ! i))})"
    using J(2) unfolding inv_def hit_def C_def Let_def len by blast
  have "length J = ?K" using J(2) by (simp add: inv_def)
  then show ?thesis using thr cj means cells by blast
qed


theorem confident_joint_counts_witness:
  "thresholds [0, 0, 1] [[500001 / 1000000, 1 / 4], [499999 / 1000000, 1 / 4], [1 / 4, 3 / 4]]
     = Inr [Some (1 / 2), Some (3 / 4)]
   \<and> confident_joint [0, 0, 1]
         [[500001 / 1000000, 1 / 4], [499999 / 1000000, 1 / 4], [1 / 4, 3 / 4]]
     = Inr [[2, 0], [0, 1]]"
proof -
  let ?s = "[0, 0, 1] :: int list"
  let ?psx = "[[500001 / 1000000, 1 / 4], [499999 / 1000000, 1 / 4], [1 / 4, 3 / 4]]
    :: real list list"
  have K: "num_classes ?s = 2" by (simp add: num_classes_def)
  have a1: "length ?s = length ?psx" by simp
  have a2: "\<forall>row \<in> set ?psx. length row = num_classes ?s" by (simp add: K)
  have a3: "\<forall>l \<in> set ?s. 0 \<le> l \<and> l < int (num_classes ?s)" by (simp add: K)
  have e1: "thresholds ?s ?psx = Inr [Some (1 / 2), Some (3 / 4)]" by code_simp
  have e2: "confident_joint ?s ?psx = Inr [[2, 0], [0, 1]]" by code_simp
  obtain thr joint where "thresholds ?s ?psx = Inr thr" "confident_joint ?s ?psx = Inr joint"
    using confident_joint_counts[OF a1 a2 a3] by blast
  then show ?thesis using e1 e2 by simp
qed

subsection \<open>The selection of every pair of classes\<close>

lemma class_mask_selected:
  assumes len: "length s = length psx"
    and rows: "\<forall>row \<in> set psx. length row = num_classes s"
    and k: "k < num_classes s"
    and item: "item s_counts k = Inr c" and big: "min_per_class < c"
    and pk: "k < length pcm" and pl: "length (pcm ! k) = num_classes s"
    and pre: "\<forall>j<num_classes s. j \<noteq> k \<longrightarrow> pcm ! k ! j \<le> count_list s (int j)"
  defines "margin \<equiv> (\<lambda>j i. psx ! i ! k - psx ! i ! j)"
  defines "cutoff \<equiv> (\<lambda>j. rev (sort (map (margin j) (filter (\<lambda>i. s ! i = int j) [0..<length s])))
                         ! (pcm ! k ! j - 1))"
  shows "\<exists>mask. class_mask s psx pcm min_per_class s_counts k = Inr mask
     \<and> length mask = length s
     \<and> (\<forall>i<length s. mask ! i \<longleftrightarrow>
           (\<exists>j<num_classes s. j \<noteq> k \<and> 0 < pcm ! k ! j \<and> s ! i = int j \<and> cutoff j \<le> margin j i))
     \<and> (\<forall>j<num_classes s. j \<noteq> k \<and> 0 < pcm ! k ! j \<longrightarrow>
           pcm ! k ! j \<le> card {i. i < length s \<and> s ! i = int j \<and> mask ! i})"
proof -
  let ?K = "num_classes s"
  let ?n = "length s"
  let ?psx_k = "map (\<lambda>row. row ! k) psx"
  let ?f = "prune_step s psx pcm k ?psx_k"
  have colk: "column psx k = Inr ?psx_k" using rows k by (simp add: column_def list_all_iff)
  have lk: "length ?psx_k = length psx" by simp
  define sel where "sel = (\<lambda>j i. s ! i = int j \<and> cutoff j \<le> margin j i)"
  have pair: "\<exists>m. pair_mask s psx ?psx_k j (pcm ! k ! j) = Inr m \<and> length m = ?n
      \<and> (\<forall>i<?n. m ! i \<longleftrightarrow> sel j i) \<and> pcm ! k ! j \<le> length (filter id m)"
    if j: "j < ?K" "j \<noteq> k" "0 < pcm ! k ! j" for j
  proof -
    have colj: "list_all (\<lambda>row. j < length row) psx" using rows j(1) by (simp add: list_all_iff)
    have le: "pcm ! k ! j \<le> count_list s (int j)" using pre j by simp
    have mg: "map (\<lambda>i. ?psx_k ! i - psx ! i ! j) (filter (\<lambda>i. s ! i = int j) [0..<?n])
        = map (margin j) (filter (\<lambda>i. s ! i = int j) [0..<?n])"
      by (rule map_cong) (auto simp: margin_def len)
    obtain m where m: "pair_mask s psx ?psx_k j (pcm ! k ! j) = Inr m" "length m = ?n"
      "\<forall>i<?n. m ! i \<longleftrightarrow> s ! i = int j \<and> cutoff j \<le> ?psx_k ! i - psx ! i ! j"
      "pcm ! k ! j \<le> length (filter id m)"
      using pair_mask_general[OF len lk colj j(3) le] unfolding cutoff_def mg by blast
    have "\<forall>i<?n. m ! i \<longleftrightarrow> sel j i"
      using m(3) by (simp add: sel_def margin_def len)
    then show ?thesis using m(1,2,4) by blast
  qed
  define inv where "inv = (\<lambda>m (acc :: bool list). length acc = ?n
      \<and> (\<forall>i<?n. acc ! i \<longleftrightarrow> (\<exists>j<m. j \<noteq> k \<and> 0 < pcm ! k ! j \<and> sel j i)))"
  have prefix: "m \<le> ?K \<Longrightarrow>
      \<exists>acc. for_loop ?f [0..<m] (replicate (length psx) False) = Inr acc \<and> inv m acc" for m
  proof (induction m)
    case 0
    then show ?case by (simp add: inv_def len)
  next
    case (Suc m)
    then have m: "m < ?K" by simp
    obtain acc where acc: "for_loop ?f [0..<m] (replicate (length psx) False) = Inr acc"
      "inv m acc" using Suc by auto
    have "\<exists>acc'. ?f acc m = Inr acc' \<and> inv (Suc m) acc'"
    proof (cases "m \<noteq> k \<and> 0 < pcm ! k ! m")
      case False
      then have "?f acc m = Inr acc"
        using pk pl m by (auto simp: prune_step_def item_def)
      moreover have "inv (Suc m) acc"
        using acc(2) False unfolding inv_def by (auto simp: less_Suc_eq)
      ultimately show ?thesis by blast
    next
      case True
      have "m \<noteq> k" "0 < pcm ! k ! m" using True by auto
      from pair[OF m this]
      obtain pm where pm: "pair_mask s psx ?psx_k m (pcm ! k ! m) = Inr pm" "length pm = ?n"
        "\<forall>i<?n. pm ! i \<longleftrightarrow> sel m i" "pcm ! k ! m \<le> length (filter id pm)"
        by (elim exE conjE)
      let ?acc' = "map (\<lambda>(a, b). a \<or> b) (zip acc pm)"
      have "?f acc m = Inr ?acc'"
        using True pk pl m pm(1) by (simp add: prune_step_def item_def)
      moreover have "inv (Suc m) ?acc'"
        using acc(2) pm(2,3) True unfolding inv_def by (auto simp: less_Suc_eq)
      ultimately show ?thesis by blast
    qed
    then obtain acc' where acc': "?f acc m = Inr acc'" "inv (Suc m) acc'" by blast
    have "for_loop ?f [0..<Suc m] (replicate (length psx) False) = Inr acc'"
      by (simp add: for_loop_append acc(1) acc'(1))
    then show ?case using acc'(2) by blast
  qed
  obtain mask where mask: "for_loop ?f [0..<?K] (replicate (length psx) False) = Inr mask"
    "inv ?K mask" using prefix[of ?K] by auto
  have cm: "class_mask s psx pcm min_per_class s_counts k = Inr mask"
    using big mask(1) by (simp add: class_mask_def colk item)
  have ml: "length mask = ?n" using mask(2) by (simp add: inv_def)
  have char: "\<forall>i<?n. mask ! i \<longleftrightarrow>
      (\<exists>j<?K. j \<noteq> k \<and> 0 < pcm ! k ! j \<and> s ! i = int j \<and> cutoff j \<le> margin j i)"
    using mask(2) unfolding inv_def sel_def by blast
  have cnt: "pcm ! k ! j \<le> card {i. i < ?n \<and> s ! i = int j \<and> mask ! i}"
    if j: "j < ?K" "j \<noteq> k \<and> 0 < pcm ! k ! j" for j
  proof -
    have "j \<noteq> k" "0 < pcm ! k ! j" using j(2) by auto
    from pair[OF j(1) this]
    obtain pm where pm0: "pair_mask s psx ?psx_k j (pcm ! k ! j) = Inr pm" and
      pm: "length pm = ?n" "\<forall>i<?n. pm ! i \<longleftrightarrow> sel j i"
      "pcm ! k ! j \<le> length (filter id pm)"
      by (elim exE conjE)
    have "{i. i < length pm \<and> pm ! i} = {i. i < ?n \<and> s ! i = int j \<and> mask ! i}"
      using pm(1,2) char j unfolding sel_def by auto
    then show ?thesis using pm(3) by (simp add: count_true_card)
  qed
  show ?thesis using cm ml char cnt by blast
qed


lemma collect_each:
  assumes "\<And>x. x \<in> set xs \<Longrightarrow> \<exists>y. f x = Inr y \<and> P x y"
  shows "\<exists>ys. collect (map f xs) = Inr ys \<and> length ys = length xs
     \<and> (\<forall>n<length xs. P (xs ! n) (ys ! n))"
  using assms
proof (induction xs)
  case Nil
  then show ?case by simp
next
  case (Cons x xs)
  obtain y where y: "f x = Inr y" "P x y" using Cons.prems[of x] by auto
  obtain ys where ys: "collect (map f xs) = Inr ys" "length ys = length xs"
    "\<forall>n<length xs. P (xs ! n) (ys ! n)"
    using Cons.IH Cons.prems by auto
  have "\<forall>n<length (x # xs). P ((x # xs) ! n) ((y # ys) ! n)"
    using y(2) ys(3) by (auto simp: nth_Cons split: nat.splits)
  then show ?case using y(1) ys(1,2) by auto
qed

lemma bincount_nonneg:
  "\<forall>l \<in> set s. 0 \<le> l \<Longrightarrow> \<exists>s_counts. bincount s = Inr s_counts"
  by (auto simp: bincount_def list_ex_iff)

text \<open>
  Claim C3. For inputs of matching shape and pruning counts that do not exceed the number
  of examples of the noisy label, the noise masks are computed without an exception, and
  for every true class \<open>k\<close> that the loop does not skip and every noisy label \<open>j \<noteq> k\<close> with
  \<open>num2prune = prune_count ! k ! j > 0\<close>: the examples of label \<open>j\<close> in the mask of \<open>k\<close> are
  exactly the examples of label \<open>j\<close> whose margin \<open>psx ! i ! k - psx ! i ! j\<close> is at least the
  \<open>num2prune\<close>-th largest margin among the examples of label \<open>j\<close>; no other pair puts an
  example of label \<open>j\<close> into the mask of \<open>k\<close>. Every example tied at the cutoff is selected,
  so at least \<open>num2prune\<close> examples of label \<open>j\<close> are selected; the witness selects two where
  one was asked for.
\<close>

theorem noise_masks_selected:
  assumes len: "length s = length psx"
    and rows: "\<forall>row \<in> set psx. length row = num_classes s"
    and nonneg: "\<forall>l \<in> set s. 0 \<le> l"
    and shape: "length prune_count \<ge> num_classes s"
      "\<forall>k<num_classes s. length (prune_count ! k) = num_classes s"
    and pre: "\<forall>k<num_classes s. \<forall>j<num_classes s.
        k \<noteq> j \<and> min_per_class < count_list s (int k)
        \<longrightarrow> prune_count ! k ! j \<le> count_list s (int j)"
  defines "margin \<equiv> (\<lambda>k j i. psx ! i ! k - psx ! i ! j)"
  defines "cutoff \<equiv> (\<lambda>k j.
     rev (sort (map (margin k j) (filter (\<lambda>i. s ! i = int j) [0..<length s])))
       ! (prune_count ! k ! j - 1))"
  shows "\<exists>masks. noise_masks_per_class s psx prune_count min_per_class = Inr masks
     \<and> length masks = num_classes s
     \<and> (\<forall>k<num_classes s. length (masks ! k) = length s
          \<and> (\<forall>i<length s. masks ! k ! i \<longleftrightarrow>
                min_per_class < count_list s (int k)
                \<and> (\<exists>j<num_classes s. j \<noteq> k \<and> 0 < prune_count ! k ! j
                       \<and> s ! i = int j \<and> cutoff k j \<le> margin k j i))
          \<and> (\<forall>j<num_classes s.
                j \<noteq> k \<and> min_per_class < count_list s (int k) \<and> 0 < prune_count ! k ! j
                \<longrightarrow> prune_count ! k ! j
                      \<le> card {i. i < length s \<and> s ! i = int j \<and> masks ! k ! i}))"
proof -
  let ?K = "num_classes s"
  let ?n = "length s"
  obtain s_counts where bc: "bincount s = Inr s_counts" using bincount_nonneg[OF nonneg] by blast
  define good where "good = (\<lambda>k (mask :: bool list). length mask = ?n
      \<and> (\<forall>i<?n. mask ! i \<longleftrightarrow>
            min_per_class < count_list s (int k)
            \<and> (\<exists>j<?K. j \<noteq> k \<and> 0 < prune_count ! k ! j
                   \<and> s ! i = int j \<and> cutoff k j \<le> margin k j i))
      \<and> (\<forall>j<?K. j \<noteq> k \<and> min_per_class < count_list s (int k) \<and> 0 < prune_count ! k ! j
            \<longrightarrow> prune_count ! k ! j \<le> card {i. i < ?n \<and> s ! i = int j \<and> mask ! i}))"
  have each: "\<exists>mask. class_mask s psx prune_count min_per_class s_counts k = Inr mask \<and> good k mask"
    if "k \<in> set [0..<?K]" for k
  proof -
    have k: "k < ?K" using that by simp
    have kl: "k < length s_counts" using bincount_covers_classes[OF bc] k by simp
    have it: "item s_counts k = Inr (count_list s (int k))"
      using bincount_nth[OF bc kl] kl by (simp add: item_def)
    show ?thesis
    proof (cases "min_per_class < count_list s (int k)")
      case True
      have pk: "k < length prune_count" using shape(1) k by simp
      have pl: "length (prune_count ! k) = ?K" using shape(2) k by simp
      have pre': "\<forall>j<?K. j \<noteq> k \<longrightarrow> prune_count ! k ! j \<le> count_list s (int j)"
        using pre k True by auto
      show ?thesis
        using class_mask_selected[OF len rows k it True pk pl pre'] True
        unfolding good_def cutoff_def margin_def by simp
    next
      case False
      have "column psx k = Inr (map (\<lambda>row. row ! k) psx)"
        using rows k by (simp add: column_def list_all_iff)
      then have "class_mask s psx prune_count min_per_class s_counts k
          = Inr (replicate ?n False)"
        using False by (simp add: class_mask_def it)
      moreover have "good k (replicate ?n False)" using False by (simp add: good_def)
      ultimately show ?thesis by blast
    qed
  qed
  obtain masks where masks: "collect (map (class_mask s psx prune_count min_per_class s_counts)
        [0..<?K]) = Inr masks" "length masks = length [0..<?K]"
      "\<forall>n<length [0..<?K]. good ([0..<?K] ! n) (masks ! n)"
    using collect_each[of "[0..<?K]" "class_mask s psx prune_count min_per_class s_counts" good]
      each by blast
  have nm: "noise_masks_per_class s psx prune_count min_per_class = Inr masks"
    by (simp add: noise_masks_per_class_def bc masks(1))
  have "\<forall>k<?K. good k (masks ! k)" using masks(3) by simp
  then show ?thesis using nm masks(2) unfolding good_def by simp
qed

theorem noise_masks_selected_witness:
  "noise_masks_per_class [0, 1, 1, 1]
      [[3 / 4, 1 / 4], [3 / 4, 1 / 4], [3 / 4, 1 / 4], [1 / 4, 3 / 4]] [[1, 1], [0, 2]] 0
     = Inr [[False, True, True, False], [False, False, False, False]]
   \<and> (1::nat) < length (filter id [False, True, True, False])"
proof -
  let ?s = "[0, 1, 1, 1] :: int list"
  let ?psx = "[[3 / 4, 1 / 4], [3 / 4, 1 / 4], [3 / 4, 1 / 4], [1 / 4, 3 / 4]] :: real list list"
  let ?pcm = "[[1, 1], [0, 2]] :: nat list list"
  have K: "num_classes ?s = 2" by (simp add: num_classes_def)
  have a1: "length ?s = length ?psx" by simp
  have a2: "\<forall>row \<in> set ?psx. length row = num_classes ?s" by (simp add: K)
  have a3: "\<forall>l \<in> set ?s. 0 \<le> l" by simp
  have a4: "num_classes ?s \<le> length ?pcm" by (simp add: K)
  have a5: "\<forall>k<num_classes ?s. length (?pcm ! k) = num_classes ?s"
    by (simp add: K less_2_cases_iff)
  have a6: "\<forall>k<num_classes ?s. \<forall>j<num_classes ?s.
        k \<noteq> j \<and> 0 < count_list ?s (int k) \<longrightarrow> ?pcm ! k ! j \<le> count_list ?s (int j)"
    by (simp add: K less_2_cases_iff)
  have e: "noise_masks_per_class ?s ?psx ?pcm 0
      = Inr [[False, True, True, False], [False, False, False, False]]"
    by code_simp
  obtain masks where "noise_masks_per_class ?s ?psx ?pcm 0 = Inr masks"
    using noise_masks_selected[OF a1 a2 a3 a4 a5 a6] by blast
  then show ?thesis using e by simp
qed

subsection \<open>Calibration\<close>

lemma largest_remainder_row_total:
  assumes nonneg: "\<forall>x \<in> set row. 0 \<le> x" and tot: "sum_list row = real t"
  shows "sum_list (largest_remainder_row row) = t"
proof -
  let ?L = "length row"
  let ?A = "{0..<?L}"
  define floors where "floors = map (\<lambda>x. nat \<lfloor>x\<rfloor>) row"
  define F where "F = sum_list floors"
  define order where "order = sort_key (\<lambda>c. - frac (row ! c)) [0..<?L]"
  define chosen where "chosen = take (t - F) order"
  have target: "nat \<lfloor>sum_list row + 1 / 2\<rfloor> = t"
  proof -
    have "\<lfloor>real t + 1 / 2\<rfloor> = int t" by (rule floor_unique) simp_all
    then show ?thesis by (simp add: tot)
  qed
  have rp: "largest_remainder_row row =
      map (\<lambda>c. floors ! c + (if c \<in> set chosen then 1 else 0)) [0..<?L]"
    unfolding largest_remainder_row_def Let_def target
    by (simp add: floors_def F_def order_def chosen_def)
  have fl_len: "length floors = ?L" by (simp add: floors_def)
  have F_sum: "F = (\<Sum>c \<in> ?A. floors ! c)"
    unfolding F_def using sum_list_sum_nth[of floors] fl_len by simp
  have row_sum: "sum_list row = (\<Sum>c \<in> ?A. row ! c)" by (rule sum_list_sum_nth)
  have fl_eq: "real (floors ! c) = of_int \<lfloor>row ! c\<rfloor>" if "c < ?L" for c
    using nonneg that by (simp add: floors_def)
  have fl_le: "real (floors ! c) \<le> row ! c" if "c < ?L" for c
    unfolding fl_eq[OF that] by (rule of_int_floor_le)
  have le_fl: "row ! c \<le> real (floors ! c) + 1" if "c < ?L" for c
    unfolding fl_eq[OF that] by (rule real_of_int_floor_add_one_ge)
  have "real F = (\<Sum>c \<in> ?A. real (floors ! c))" by (simp add: F_sum)
  also have "\<dots> \<le> (\<Sum>c \<in> ?A. row ! c)" by (rule sum_mono) (simp add: fl_le)
  finally have F_le: "F \<le> t" using tot row_sum by simp
  have "real t = (\<Sum>c \<in> ?A. row ! c)" using tot row_sum by simp
  also have "\<dots> \<le> (\<Sum>c \<in> ?A. real (floors ! c) + 1)" by (rule sum_mono) (simp add: le_fl)
  also have "\<dots> = real F + real ?L" by (simp add: F_sum sum.distrib)
  finally have "real t \<le> real (F + ?L)" by simp
  then have "t \<le> F + ?L" by (simp only: of_nat_le_iff)
  then have res: "t - F \<le> length order" by (simp add: order_def)
  have ch_len: "length chosen = t - F" using res by (simp add: chosen_def)
  have ch_dist: "distinct chosen" by (simp add: chosen_def order_def)
  have "set chosen \<subseteq> set order" unfolding chosen_def by (rule set_take_subset)
  also have "set order = ?A" by (simp add: order_def)
  finally have ch_sub: "set chosen \<subseteq> ?A" .
  have "(\<Sum>c \<in> ?A. (if c \<in> set chosen then 1 else 0 :: nat))
      = sum (\<lambda>c. 1) (?A \<inter> set chosen)"
    by (rule sum.inter_restrict[symmetric]) simp
  also have "\<dots> = card (?A \<inter> set chosen)" by simp
  also have "?A \<inter> set chosen = set chosen" using ch_sub by blast
  also have "card (set chosen) = t - F" using ch_dist ch_len by (simp add: distinct_card)
  finally have ind: "(\<Sum>c \<in> ?A. (if c \<in> set chosen then 1 else 0 :: nat)) = t - F" .
  have "sum_list (largest_remainder_row row)
      = (\<Sum>c \<in> ?A. floors ! c + (if c \<in> set chosen then 1 else 0))"
    unfolding rp by (simp add: interv_sum_list_conv_sum_set_nat)
  also have "\<dots> = F + (\<Sum>c \<in> ?A. (if c \<in> set chosen then 1 else 0 :: nat))"
    unfolding F_sum by (rule sum.distrib)
  also have "\<dots> = t" using ind F_le by simp
  finally show ?thesis .
qed

lemma largest_remainder_row_length: "length (largest_remainder_row row) = length row"
  by (simp add: largest_remainder_row_def Let_def)

lemma class_counts_sum:
  assumes "\<forall>l \<in> set s. 0 \<le> l \<and> l < int K"
  shows "(\<Sum>r \<in> {0..<K}. count_list s (int r)) = length s"
  using assms
proof (induction s)
  case Nil
  then show ?case by simp
next
  case (Cons x xs)
  have x: "0 \<le> x" "nat x \<in> {0..<K}" using Cons.prems by auto
  have eq: "(x = int r) = (r = nat x)" for r using x(1) by auto
  have "(\<Sum>r \<in> {0..<K}. count_list (x # xs) (int r))
      = (\<Sum>r \<in> {0..<K}. count_list xs (int r) + (if r = nat x then 1 else 0))"
    by (rule sum.cong) (auto simp: eq)
  also have "\<dots> = (\<Sum>r \<in> {0..<K}. count_list xs (int r)) + (\<Sum>r \<in> {0..<K}. if r = nat x then 1 else 0)"
    by (rule sum.distrib)
  also have "(\<Sum>r \<in> {0..<K}. if r = nat x then 1 else 0) = (1::nat)"
    using x(2) by (simp add: sum.delta)
  finally show ?case using Cons by simp
qed

lemma sum_list_scaled:
  "sum_list (map (\<lambda>c. real c * a / b) row) = real (sum_list row) * a / b"
  by (induction row) (simp_all add: algebra_simps add_divide_distrib)

lemma scale_row_sum: "0 < sum_list row \<Longrightarrow> sum_list (scale_row cnt row) = real cnt"
  by (simp add: scale_row_def sum_list_scaled del: sum_list_eq_0_iff)

lemma scale_row_nonneg: "\<forall>x \<in> set (scale_row cnt row). 0 \<le> x"
  by (auto simp: scale_row_def)

lemma scale_row_length: "length (scale_row cnt row) = length row"
  by (simp add: scale_row_def)

lemma scaled_joint_nth:
  "r < length joint \<Longrightarrow> scaled_joint joint s ! r = scale_row (count_list s (int r)) (joint ! r)"
  by (simp add: scaled_joint_def nth_enumerate_eq)

lemma calibrated_rows:
  assumes "length joint = K" and "\<forall>r<K. length (joint ! r) = K \<and> 0 < sum_list (joint ! r)"
  shows "length (calibrate_confident_joint joint s) = K"
    and "\<forall>r<K. length (calibrate_confident_joint joint s ! r) = K
          \<and> sum_list (calibrate_confident_joint joint s ! r) = count_list s (int r)"
proof -
  have l: "length (scaled_joint joint s) = K" by (simp add: scaled_joint_def assms(1))
  show "length (calibrate_confident_joint joint s) = K"
    by (simp add: calibrate_confident_joint_def l)
  show "\<forall>r<K. length (calibrate_confident_joint joint s ! r) = K
          \<and> sum_list (calibrate_confident_joint joint s ! r) = count_list s (int r)"
  proof (intro allI impI)
    fix r assume r: "r < K"
    let ?row = "scale_row (count_list s (int r)) (joint ! r)"
    have nth: "calibrate_confident_joint joint s ! r = largest_remainder_row ?row"
      using r l assms(1) by (simp add: calibrate_confident_joint_def scaled_joint_nth)
    have "sum_list ?row = real (count_list s (int r))"
      using assms(2) r by (simp add: scale_row_sum)
    then have "sum_list (largest_remainder_row ?row) = count_list s (int r)"
      by (rule largest_remainder_row_total[OF scale_row_nonneg])
    then show "length (calibrate_confident_joint joint s ! r) = K
          \<and> sum_list (calibrate_confident_joint joint s ! r) = count_list s (int r)"
      using assms(2) r by (simp add: nth largest_remainder_row_length scale_row_length)
  qed
qed

text \<open>
  Claim C2. For every valid input the confident joint is computed without an exception,
  and after calibration every row of the joint sums to the number of examples of the row's
  label and all cells sum to the number of examples, the rounding of the rescaled cells
  with its residual included. In the witness the rescaled rows are \<open>[3/2, 3/2, 0]\<close>,
  \<open>[4/3, 4/3, 4/3]\<close> and \<open>[0, 0, 1]\<close>.
\<close>

theorem calibrated_sums:
  assumes "length s = length psx"
    and "\<forall>row \<in> set psx. length row = num_classes s"
    and "\<forall>l \<in> set s. 0 \<le> l \<and> l < int (num_classes s)"
  shows "\<exists>joint. confident_joint s psx = Inr joint
     \<and> length (calibrate_confident_joint joint s) = num_classes s
     \<and> (\<forall>r<num_classes s.
           sum_list (calibrate_confident_joint joint s ! r) = count_list s (int r))
     \<and> sum_list (map sum_list (calibrate_confident_joint joint s)) = length s"
proof -
  let ?K = "num_classes s"
  obtain J where J: "confident_joint s psx = Inr J" "length J = ?K"
    and Jr: "\<forall>r<?K. length (J ! r) = ?K \<and> 0 < sum_list (J ! r)"
    using confident_joint_valid[OF assms] by blast
  let ?cal = "calibrate_confident_joint J s"
  note cal = calibrated_rows[OF J(2) Jr, of s]
  have "sum_list (map sum_list ?cal) = (\<Sum>r \<in> {0..<length ?cal}. sum_list (?cal ! r))"
    using sum_list_sum_nth[of "map sum_list ?cal"] by simp
  also have "\<dots> = (\<Sum>r \<in> {0..<?K}. count_list s (int r))"
    using cal by simp
  also have "\<dots> = length s" by (rule class_counts_sum[OF assms(3)])
  finally show ?thesis using J(1) cal by blast
qed

theorem calibrated_sums_witness:
  "confident_joint [0, 0, 0, 1, 1, 1, 1, 2]
      [[1, 0, 0], [0, 1, 0], [1 / 4, 1 / 4, 1 / 2],
       [1, 0, 0], [0, 1, 0], [0, 0, 1], [1 / 4, 1 / 4, 1 / 2],
       [0, 0, 1]] = Inr [[1, 1, 0], [1, 1, 1], [0, 0, 1]]
   \<and> calibrate_confident_joint [[1, 1, 0], [1, 1, 1], [0, 0, 1]] [0, 0, 0, 1, 1, 1, 1, 2]
       = [[2, 1, 0], [2, 1, 1], [0, 0, 1]]
   \<and> sum_list (map sum_list
         (calibrate_confident_joint [[1, 1, 0], [1, 1, 1], [0, 0, 1]] [0, 0, 0, 1, 1, 1, 1, 2]))
       = 8"
proof -
  let ?s = "[0, 0, 0, 1, 1, 1, 1, 2] :: int list"
  let ?psx = "[[1, 0, 0], [0, 1, 0], [1 / 4, 1 / 4, 1 / 2],
       [1, 0, 0], [0, 1, 0], [0, 0, 1], [1 / 4, 1 / 4, 1 / 2], [0, 0, 1]] :: real list list"
  have K: "num_classes ?s = 3" by (simp add: num_classes_def)
  have a1: "length ?s = length ?psx" by simp
  have a2: "\<forall>row \<in> set ?psx. length row = num_classes ?s" by (simp add: K)
  have a3: "\<forall>l \<in> set ?s. 0 \<le> l \<and> l < int (num_classes ?s)" by (simp add: K)
  have e1: "confident_joint ?s ?psx = Inr [[1, 1, 0], [1, 1, 1], [0, 0, 1]]" by code_simp
  have e2: "calibrate_confident_joint [[1, 1, 0], [1, 1, 1], [0, 0, 1]] ?s
      = [[2, 1, 0], [2, 1, 1], [0, 0, 1]]" by code_simp
  obtain joint where j: "confident_joint ?s ?psx = Inr joint"
    "sum_list (map sum_list (calibrate_confident_joint joint ?s)) = length ?s"
    using calibrated_sums[OF a1 a2 a3] by blast
  have "joint = [[1, 1, 0], [1, 1, 1], [0, 0, 1]]" using j(1) e1 by simp
  then show ?thesis using j(2) e1 e2 by simp
qed

subsection \<open>The floor on the examples kept per class\<close>





















end
